theory Spec2Isabelle
  imports Main "HOL-Library.AList"
begin

section \<open>SmartCache: the offline request queue, the cache and the notification toasts\<close>

text \<open>
  The development embeds the two programs of the package: the service worker
  (\<^verbatim>\<open>sw.js\<close>: IndexedDB helpers, cache helpers, the fetch handler, the message
  handler, \<^verbatim>\<open>syncStoredPosts\<close> and \<^verbatim>\<open>syncOfflineRequests\<close>) and the page script
  (\<^verbatim>\<open>dist/smart-cache.js\<close>: the same IndexedDB helpers, \<^verbatim>\<open>notifyUser\<close>,
  \<^verbatim>\<open>showNextMessage\<close>, the page's message handler and its own
  \<^verbatim>\<open>syncOfflineRequests\<close>).

  Promises are modelled by their outcomes: a rejected promise is the \<open>Inl\<close> of a sum or
  a \<open>None\<close>, and what the environment decides (the clock, how the network answers, whether
  a request body can be read) is an explicit argument. The browser's IndexedDB and Cache
  API are modelled by what the code relies on: an object store ordered by its
  auto-incremented key, and a cache keyed by request method and URL.
\<close>

subsection \<open>Configuration and constants\<close>

definition MAX_RETRIES :: nat where
  "MAX_RETRIES = 5"

definition MAX_AGE :: int where
  "MAX_AGE = 1000 * 60 * 60 * 24 * 7"

subsection \<open>Data\<close>

text \<open>The object the fetch handler builds as \<^verbatim>\<open>requestData\<close> and IndexedDB stores (\<open>http_method\<close> is its \<^verbatim>\<open>method\<close>).\<close>

record request_data =
  url :: string
  http_method :: string
  headers :: "(string \<times> string) list"
  body :: string
  contentType :: string
  timestamp :: int
  retryCount :: nat

text \<open>A stored record: the key IndexedDB generated for it (the \<^verbatim>\<open>id\<close> key path), and the data.\<close>

type_synonym stored = "nat \<times> request_data"

record response =
  status :: nat
  statusText :: string
  resp_headers :: "(string \<times> string) list"
  resp_body :: string

text \<open>\<^verbatim>\<open>response.ok\<close> of the Fetch API: the status is in the range 200-299.\<close>

definition ok :: "response \<Rightarrow> bool" where
  "ok r = (200 \<le> status r \<and> status r \<le> 299)"

datatype error = StorageError

subsection \<open>IndexedDB helpers\<close>

text \<open>
  The object store \<^verbatim>\<open>offline-requests\<close> is created with
  \<^verbatim>\<open>{ keyPath: 'id', autoIncrement: true }\<close>: records are held in ascending key order and
  \<^verbatim>\<open>add\<close> takes the next key from the store's key generator. \<open>available\<close> says whether
  the database can be opened and written; when it cannot, every helper's promise rejects.

  Every helper opens the database again, and the two programs do not ask for the same
  version: the page calls \<^verbatim>\<open>indexedDB.open\<close> with version 1, the service worker with
  version 2 (their upgrade handlers create the same store and an index that nothing reads).
  An open that asks for less than the version the database has is rejected, so once the
  worker has opened the database the opens of the page fail. The record has no version and
  one flag: for a helper run by a program, \<open>available\<close> says that the open of this
  program succeeds, and for the page after an open of the worker the case that applies is
  \<open>available = False\<close>. The properties of a pass are therefore stated for one program at
  a time, never for a pass of the page that follows a pass of the worker on an available
  store; the event system lets the passes of both programs run, which is more than can
  happen and does no harm to an invariant of every run.
\<close>

record idb =
  available :: bool
  keygen :: nat
  recs :: "stored list"

definition openDB :: "idb \<Rightarrow> error + idb" where
  "openDB s = (if available s then Inr s else Inl StorageError)"

definition store_add :: "request_data \<Rightarrow> idb \<Rightarrow> idb" where
  "store_add d db = db\<lparr>recs := insort_key fst (keygen db, d) (recs db), keygen := Suc (keygen db)\<rparr>"

definition store_get :: "nat \<Rightarrow> idb \<Rightarrow> request_data option" where
  "store_get k db = map_of (recs db) k"

definition store_delete :: "nat \<Rightarrow> idb \<Rightarrow> idb" where
  "store_delete k db = db\<lparr>recs := filter (\<lambda>r. fst r \<noteq> k) (recs db)\<rparr>"

definition store_put :: "stored \<Rightarrow> idb \<Rightarrow> idb" where
  "store_put r db = db\<lparr>recs := insort_key fst r (filter (\<lambda>x. fst x \<noteq> fst r) (recs db))\<rparr>"

definition saveRequest :: "request_data \<Rightarrow> idb \<Rightarrow> error + idb" where
  "saveRequest requestData s =
     (case openDB s of Inl e \<Rightarrow> Inl e | Inr db \<Rightarrow> Inr (store_add requestData db))"

definition getAllRequests :: "idb \<Rightarrow> error + stored list" where
  "getAllRequests s = (case openDB s of Inl e \<Rightarrow> Inl e | Inr db \<Rightarrow> Inr (recs db))"

definition deleteRequest :: "nat \<Rightarrow> idb \<Rightarrow> error + idb" where
  "deleteRequest k s = (case openDB s of Inl e \<Rightarrow> Inl e | Inr db \<Rightarrow> Inr (store_delete k db))"

definition updateRequestRetryCount :: "nat \<Rightarrow> nat \<Rightarrow> idb \<Rightarrow> error + idb" where
  "updateRequestRetryCount k n s =
     (case openDB s of
        Inl e \<Rightarrow> Inl e
      | Inr db \<Rightarrow>
          (case store_get k db of
             Some data \<Rightarrow> Inr (store_put (k, data\<lparr>retryCount := n\<rparr>) db)
           | None \<Rightarrow> Inr db))"

subsection \<open>Cache helpers\<close>

text \<open>
  The Cache API, keyed by the request's method and URL. \<^verbatim>\<open>cache.put\<close> overwrites the
  entry of the key, \<^verbatim>\<open>cache.match\<close> returns the stored response or \<^verbatim>\<open>undefined\<close>.
  Both are modelled as total: the source handles no failure of theirs in the fetch handler.
  A real \<^verbatim>\<open>cache.put\<close> rejects a request whose method is not \<^verbatim>\<open>GET\<close> (the fetch
  handler and the refresh hand it \<^verbatim>\<open>HEAD\<close> requests too) and a response of status 206:
  nothing is stored then. These rejections are left out, and what is proved of the cache
  below is about \<^verbatim>\<open>GET\<close> requests with a status other than 206.
\<close>

type_synonym cache_key = "string \<times> string"

type_synonym cache_store = "(cache_key \<times> response) list"

definition cachePut :: "cache_key \<Rightarrow> response \<Rightarrow> cache_store \<Rightarrow> cache_store" where
  "cachePut request response c = AList.update request response c"

definition cacheMatch :: "cache_key \<Rightarrow> cache_store \<Rightarrow> response option" where
  "cacheMatch request c = map_of c request"

subsection \<open>Messages between the service worker and the page\<close>

text \<open>The \<^verbatim>\<open>type\<close> tags of the posted objects, with the URL and the method they carry.\<close>

datatype message =
    OFFLINE_REQUEST_SAVED string string
  | OFFLINE_USAGE
  | OFFLINE_REQUEST_SYNCED string string
  | SYNC_OFFLINE_REQUESTS
  | Unrecognized

subsection \<open>The page: toasts (\<^verbatim>\<open>notifyUser\<close>, \<^verbatim>\<open>showNextMessage\<close>)\<close>

datatype ntype = Info | Success | Error

text \<open>
  The texts the page shows; each constructor is one template literal of the source with
  the values it interpolates (method, URL, status).
\<close>

datatype notice =
    SavedForLater string string
  | OfflineLoaded
  | SyncedTo string string
  | RegisterFailed
  | SyncedOffline string string
  | FailedToSync string string nat
  | ErrorSyncing string string

record box =
  box_id :: nat
  textContent :: notice
  background :: string
  opacity :: nat

text \<open>
  The two timeouts of \<^verbatim>\<open>showNextMessage\<close>: the one of 3000 ms that fades a box out, and
  the one of 500 ms it then sets, which removes the box and shows the next message.
\<close>

datatype timer = FadeOut nat | RemoveBox nat

text \<open>
  The page's state: the configuration flag, the two variables \<^verbatim>\<open>messageQueue\<close> and
  \<^verbatim>\<open>isShowingMessage\<close>, the children of the \<^verbatim>\<open>smart-cache-notify\<close> element (\<open>None\<close>
  until the element is created), and the pending timeouts. \<open>next_box\<close> names the DOM
  nodes, and \<open>shown\<close> records every message for which a box was appended, in order;
  the program reads neither.
\<close>

record page =
  SHOW_NOTIFICATIONS :: bool
  messageQueue :: "(notice \<times> ntype) list"
  isShowingMessage :: bool
  container :: "box list option"
  timers :: "timer list"
  next_box :: nat
  shown :: "(notice \<times> ntype) list"

definition children :: "page \<Rightarrow> box list" where
  "children d = (case container d of None \<Rightarrow> [] | Some bs \<Rightarrow> bs)"

definition colour :: "ntype \<Rightarrow> string" where
  "colour t = (if t = Error then ''#f44336'' else if t = Success then ''#4caf50'' else ''#2196f3'')"

definition showNextMessage :: "page \<Rightarrow> page" where
  "showNextMessage d =
     (case messageQueue d of
        [] \<Rightarrow> d\<lparr>isShowingMessage := False\<rparr>
      | m # rest \<Rightarrow>
          d\<lparr>isShowingMessage := True,
            messageQueue := rest,
            container := Some (children d @
              [\<lparr>box_id = next_box d, textContent = fst m, background = colour (snd m), opacity = 1\<rparr>]),
            timers := timers d @ [FadeOut (next_box d)],
            next_box := Suc (next_box d),
            shown := shown d @ [m]\<rparr>)"

definition notifyUser :: "notice \<Rightarrow> ntype \<Rightarrow> page \<Rightarrow> page" where
  "notifyUser msg t d =
     (if \<not> SHOW_NOTIFICATIONS d then d
      else let d' = d\<lparr>messageQueue := messageQueue d @ [(msg, t)]\<rparr>
           in if \<not> isShowingMessage d' then showNextMessage d' else d')"

text \<open>The callback of a timeout; \<open>fire k\<close> runs the \<open>k\<close>-th pending one.\<close>

definition timeout_callback :: "timer \<Rightarrow> page \<Rightarrow> page" where
  "timeout_callback t d =
     (case t of
        FadeOut b \<Rightarrow>
          d\<lparr>container := map_option (map (\<lambda>x. if box_id x = b then x\<lparr>opacity := 0\<rparr> else x)) (container d),
            timers := timers d @ [RemoveBox b]\<rparr>
      | RemoveBox b \<Rightarrow>
          showNextMessage
            (d\<lparr>container := map_option (filter (\<lambda>x. box_id x \<noteq> b)) (container d),
               isShowingMessage := False\<rparr>))"

definition fire :: "nat \<Rightarrow> page \<Rightarrow> page" where
  "fire k d =
     (if k < length (timers d)
      then timeout_callback (timers d ! k) (d\<lparr>timers := take k (timers d) @ drop (Suc k) (timers d)\<rparr>)
      else d)"

text \<open>What happens to the page: a call of \<^verbatim>\<open>notifyUser\<close>, or a timeout that expires.\<close>

datatype page_event = Publish notice ntype | Fire nat

fun page_step :: "page_event \<Rightarrow> page \<Rightarrow> page" where
  "page_step (Publish msg t) d = notifyUser msg t d"
| "page_step (Fire k) d = fire k d"

definition page_run :: "page_event list \<Rightarrow> page \<Rightarrow> page" where
  "page_run evs d = foldl (\<lambda>s ev. page_step ev s) d evs"

definition published :: "page_event list \<Rightarrow> (notice \<times> ntype) list" where
  "published evs = concat (map (\<lambda>ev. case ev of Publish msg t \<Rightarrow> [(msg, t)] | Fire k \<Rightarrow> []) evs)"

definition page_init :: "bool \<Rightarrow> page" where
  "page_init flag =
     \<lparr>SHOW_NOTIFICATIONS = flag, messageQueue = [], isShowingMessage = False, container = None,
      timers = [], next_box = 0, shown = []\<rparr>"

subsection \<open>The environment and the state of the system\<close>

text \<open>An intercepted \<^verbatim>\<open>Request\<close>; header names are in lower case, as \<^verbatim>\<open>Headers\<close> keeps them.\<close>

record request =
  req_url :: string
  req_method :: string
  req_headers :: "(string \<times> string) list"
  req_body :: string

text \<open>The arguments of a \<^verbatim>\<open>fetch(url, options)\<close> of the replay.\<close>

record fetch_call =
  f_url :: string
  f_method :: string
  f_headers :: "(string \<times> string) list"
  f_body :: "string option"

text \<open>
  Every call of \<^verbatim>\<open>fetch\<close> is logged: the one of the fetch handler, the one that replays
  the stored record of a given id, the one that refreshes a cache key.
\<close>

datatype call = Intercepted request | Replayed nat fetch_call | Refreshed cache_key

text \<open>
  What the program reads from outside: \<^verbatim>\<open>Date.now()\<close>, the outcome of the \<open>n\<close>-th
  network call of the log (\<open>None\<close> when \<^verbatim>\<open>fetch\<close> rejects, the response when it
  resolves, whatever its status), and whether \<^verbatim>\<open>request.clone().text()\<close> resolves.
\<close>

record env =
  clock :: int
  net :: "nat \<Rightarrow> response option"
  body_readable :: bool

text \<open>
  The two programs that replay the queue: \<^verbatim>\<open>syncStoredPosts\<close> of the service worker and
  \<^verbatim>\<open>syncOfflineRequests\<close> of the page script.
\<close>

datatype variant = Worker | Page

text \<open>
  Where a running pass stands: before \<^verbatim>\<open>getAllRequests\<close> has resolved; in the loop,
  with the time read after the snapshot and the entries of the snapshot still to process;
  waiting for the \<^verbatim>\<open>fetch\<close> of an entry (with the index of the call in the log); in the
  cache refresh.
\<close>

datatype phase =
    Starting
  | Replaying int "stored list"
  | Awaiting int nat stored "stored list"
  | Refreshing

record world =
  db :: idb
  cache :: cache_store
  posted :: "message list"
  ui :: page
  calls :: "call list"
  passes :: "(variant \<times> phase) list"

subsection \<open>The fetch handler of the service worker\<close>

definition serializeHeaders :: "(string \<times> string) list \<Rightarrow> (string \<times> string) list" where
  "serializeHeaders hs = foldl (\<lambda>serialized kv. AList.update (fst kv) (snd kv) serialized) [] hs"

definition headers_get :: "(string \<times> string) list \<Rightarrow> string \<Rightarrow> string option" where
  "headers_get hs name = map_of hs name"

definition requestData_of :: "int \<Rightarrow> request \<Rightarrow> request_data" where
  "requestData_of now request =
     \<lparr>url = req_url request,
      http_method = req_method request,
      headers = serializeHeaders (req_headers request),
      body = req_body request,
      contentType = (case headers_get (req_headers request) ''content-type'' of
                       None \<Rightarrow> [] | Some v \<Rightarrow> v),
      timestamp = now,
      retryCount = 0\<rparr>"

definition response_503 :: response where
  "response_503 =
     \<lparr>status = 503, statusText = ''Service Unavailable'', resp_headers = [],
      resp_body = ''Offline and no cached data''\<rparr>"

definition response_202 :: response where
  \<open>response_202 =
     \<lparr>status = 202, statusText = [], resp_headers = [(''content-type'', ''application/json'')],
      resp_body = ''{"offline":true,"message":"Request saved for later sync"}''\<rparr>\<close>

definition response_500 :: response where
  \<open>response_500 =
     \<lparr>status = 500, statusText = [], resp_headers = [(''content-type'', ''application/json'')],
      resp_body = ''{"error":"Failed to save request offline"}''\<rparr>\<close>

definition sendMessageToClients :: "message \<Rightarrow> world \<Rightarrow> world" where
  "sendMessageToClients msg w = w\<lparr>posted := posted w @ [msg]\<rparr>"

text \<open>The branch for \<^verbatim>\<open>GET\<close> and \<^verbatim>\<open>HEAD\<close>; \<open>outcome\<close> is how \<^verbatim>\<open>fetch(request)\<close> settled.\<close>

definition fetch_read :: "response option \<Rightarrow> request \<Rightarrow> world \<Rightarrow> response \<times> world" where
  "fetch_read outcome request w =
     (let key = (req_method request, req_url request) in
      case outcome of
        Some response \<Rightarrow>
          (response,
           sendMessageToClients (OFFLINE_REQUEST_SYNCED (req_url request) (req_method request))
             (w\<lparr>cache := cachePut key response (cache w)\<rparr>))
      | None \<Rightarrow>
          (case cacheMatch key (cache w) of
             Some cached \<Rightarrow> (cached, sendMessageToClients OFFLINE_USAGE w)
           | None \<Rightarrow> (response_503, w)))"

text \<open>
  The branch for every other method. In the \<^verbatim>\<open>catch\<close> of the network call, the
  \<^verbatim>\<open>try\<close> block reads the body and saves the request; either of them failing is caught
  and answered with status 500.
\<close>

definition fetch_write :: "env \<Rightarrow> response option \<Rightarrow> request \<Rightarrow> world \<Rightarrow> response \<times> world" where
  "fetch_write e outcome request w =
     (case outcome of
        Some response \<Rightarrow> (response, w)
      | None \<Rightarrow>
          (if \<not> body_readable e then (response_500, w)
           else case saveRequest (requestData_of (clock e) request) (db w) of
                  Inl err \<Rightarrow> (response_500, w)
                | Inr s \<Rightarrow>
                    (response_202,
                     sendMessageToClients
                       (OFFLINE_REQUEST_SAVED (req_url request) (req_method request))
                       (w\<lparr>db := s\<rparr>))))"

definition fetch_handler :: "env \<Rightarrow> request \<Rightarrow> world \<Rightarrow> response \<times> world" where
  "fetch_handler e request w =
     (let outcome = net e (length (calls w));
          w' = w\<lparr>calls := calls w @ [Intercepted request]\<rparr>
      in if req_method request = ''GET'' \<or> req_method request = ''HEAD''
         then fetch_read outcome request w'
         else fetch_write e outcome request w')"

subsection \<open>Replaying the queue\<close>

text \<open>
  The test that removes an entry without sending it. The service worker tests the age,
  then the retry count; the page tests both in one condition, the retry count first.
\<close>

fun expired :: "variant \<Rightarrow> int \<Rightarrow> request_data \<Rightarrow> bool" where
  "expired Worker now req =
     (if now - timestamp req > MAX_AGE then True
      else if retryCount req \<ge> MAX_RETRIES then True
      else False)"
| "expired Page now req = (retryCount req \<ge> MAX_RETRIES \<or> now - timestamp req > MAX_AGE)"

text \<open>
  \<^verbatim>\<open>prepareRequestBody\<close> of the page script, on the bodies the queue holds: the fetch
  handler stores the body as text, and a string is returned as it is.
\<close>

definition prepareRequestBody :: "string \<Rightarrow> string option" where
  "prepareRequestBody b = Some b"

fun fetch_of :: "variant \<Rightarrow> request_data \<Rightarrow> fetch_call" where
  "fetch_of Worker req =
     \<lparr>f_url = url req,
      f_method = http_method req,
      f_headers = (if contentType req \<noteq> []
                   then AList.update ''content-type'' (contentType req) (headers req)
                   else headers req),
      f_body = (if http_method req \<in> set [''GET'', ''HEAD''] then None else Some (body req))\<rparr>"
| "fetch_of Page req =
     \<lparr>f_url = url req, f_method = http_method req, f_headers = headers req,
      f_body = prepareRequestBody (body req)\<rparr>"

text \<open>What each program does after the store operation that follows a settled \<^verbatim>\<open>fetch\<close>.\<close>

fun on_synced :: "variant \<Rightarrow> request_data \<Rightarrow> world \<Rightarrow> world" where
  "on_synced Worker req w = sendMessageToClients (OFFLINE_REQUEST_SYNCED (url req) (http_method req)) w"
| "on_synced Page req w = w\<lparr>ui := notifyUser (SyncedOffline (http_method req) (url req)) Success (ui w)\<rparr>"

fun on_not_ok :: "variant \<Rightarrow> request_data \<Rightarrow> response \<Rightarrow> world \<Rightarrow> world" where
  "on_not_ok Worker req r w = w"
| "on_not_ok Page req r w =
     w\<lparr>ui := notifyUser (FailedToSync (http_method req) (url req) (status r)) Error (ui w)\<rparr>"

fun on_caught :: "variant \<Rightarrow> request_data \<Rightarrow> world \<Rightarrow> world" where
  "on_caught Worker req w = w"
| "on_caught Page req w = w\<lparr>ui := notifyUser (ErrorSyncing (http_method req) (url req)) Error (ui w)\<rparr>"

text \<open>
  The loop body up to the \<^verbatim>\<open>fetch\<close>: an expired entry is deleted and the loop continues
  (\<open>Skipped\<close>); otherwise the call is issued (\<open>Issued\<close>, with its index in the log).
  A rejected \<^verbatim>\<open>deleteRequest\<close> is outside any \<^verbatim>\<open>try\<close> here and ends the pass
  (\<open>Aborted\<close>).
\<close>

datatype begun = Aborted | Skipped world | Issued nat world

definition begin_entry :: "variant \<Rightarrow> int \<Rightarrow> stored \<Rightarrow> world \<Rightarrow> begun" where
  "begin_entry v now req w =
     (if expired v now (snd req) then
        (case deleteRequest (fst req) (db w) of
           Inl err \<Rightarrow> Aborted
         | Inr s \<Rightarrow> Skipped (w\<lparr>db := s\<rparr>))
      else Issued (length (calls w))
             (w\<lparr>calls := calls w @ [Replayed (fst req) (fetch_of v (snd req))]\<rparr>))"

text \<open>
  The \<^verbatim>\<open>catch\<close> block: the retry count of the snapshot plus one is written; if that
  write is rejected too, the rejection leaves the function (\<open>None\<close>).
\<close>

definition catch_block :: "variant \<Rightarrow> stored \<Rightarrow> world \<Rightarrow> world option" where
  "catch_block v req w =
     (case updateRequestRetryCount (fst req) (retryCount (snd req) + 1) (db w) of
        Inl err \<Rightarrow> None
      | Inr s \<Rightarrow> Some (on_caught v (snd req) (w\<lparr>db := s\<rparr>)))"

text \<open>The rest of the \<^verbatim>\<open>try\<close> block, once the \<^verbatim>\<open>fetch\<close> has settled with \<open>outcome\<close>.\<close>

definition settle_entry :: "variant \<Rightarrow> stored \<Rightarrow> response option \<Rightarrow> world \<Rightarrow> world option" where
  "settle_entry v req outcome w =
     (case outcome of
        None \<Rightarrow> catch_block v req w
      | Some response \<Rightarrow>
          (if ok response then
             (case deleteRequest (fst req) (db w) of
                Inl err \<Rightarrow> catch_block v req w
              | Inr s \<Rightarrow> Some (on_synced v (snd req) (w\<lparr>db := s\<rparr>)))
           else
             (case updateRequestRetryCount (fst req) (retryCount (snd req) + 1) (db w) of
                Inl err \<Rightarrow> catch_block v req w
              | Inr s \<Rightarrow> Some (on_not_ok v (snd req) response (w\<lparr>db := s\<rparr>)))))"

definition replay_entry :: "env \<Rightarrow> variant \<Rightarrow> int \<Rightarrow> stored \<Rightarrow> world \<Rightarrow> world option" where
  "replay_entry e v now req w =
     (case begin_entry v now req w of
        Aborted \<Rightarrow> None
      | Skipped w' \<Rightarrow> Some w'
      | Issued i w' \<Rightarrow> settle_entry v req (net e i) w')"

text \<open>The \<^verbatim>\<open>for (const req of requests)\<close> loop, run without anything else in between.\<close>

fun replay :: "env \<Rightarrow> variant \<Rightarrow> int \<Rightarrow> stored list \<Rightarrow> world \<Rightarrow> world option" where
  "replay e v now [] w = Some w"
| "replay e v now (req # requests) w =
     (case replay_entry e v now req w of
        None \<Rightarrow> None
      | Some w' \<Rightarrow> replay e v now requests w')"

definition sync_queue :: "env \<Rightarrow> variant \<Rightarrow> world \<Rightarrow> world option" where
  "sync_queue e v w =
     (case getAllRequests (db w) of
        Inl err \<Rightarrow> None
      | Inr requests \<Rightarrow> replay e v (clock e) requests w)"

text \<open>\<^verbatim>\<open>syncStoredPosts\<close> of the service worker.\<close>

definition syncStoredPosts :: "env \<Rightarrow> world \<Rightarrow> world option" where
  "syncStoredPosts e w = sync_queue e Worker w"

text \<open>\<^verbatim>\<open>syncOfflineRequests\<close> of the page script (\<^verbatim>\<open>dist/smart-cache.js\<close>).\<close>

definition page_syncOfflineRequests :: "env \<Rightarrow> world \<Rightarrow> world option" where
  "page_syncOfflineRequests e w = sync_queue e Page w"

subsection \<open>Refreshing the cache\<close>

text \<open>
  One element of the \<^verbatim>\<open>Promise.all\<close> fan-out of the worker's \<^verbatim>\<open>syncOfflineRequests\<close>:
  whatever response the network gives is put into the cache; when the call rejects and the
  key is still cached, \<^verbatim>\<open>OFFLINE_USAGE\<close> is posted.
\<close>

definition refresh_one :: "env \<Rightarrow> cache_key \<Rightarrow> world \<Rightarrow> world" where
  "refresh_one e request w =
     (let outcome = net e (length (calls w));
          w' = w\<lparr>calls := calls w @ [Refreshed request]\<rparr>
      in case outcome of
           Some response \<Rightarrow>
             sendMessageToClients (OFFLINE_REQUEST_SYNCED (snd request) (fst request))
               (w'\<lparr>cache := cachePut request response (cache w')\<rparr>)
         | None \<Rightarrow>
             (case cacheMatch request (cache w') of
                Some cached \<Rightarrow> sendMessageToClients OFFLINE_USAGE w'
              | None \<Rightarrow> w'))"

text \<open>The fan-out is run key by key, in the order of \<^verbatim>\<open>cache.keys()\<close>.\<close>

definition refresh_cache :: "env \<Rightarrow> world \<Rightarrow> world" where
  "refresh_cache e w =
     (let getRequests = filter (\<lambda>req. fst req = ''GET'' \<or> fst req = ''HEAD'') (map fst (cache w))
      in foldl (\<lambda>s request. refresh_one e request s) w getRequests)"

text \<open>\<^verbatim>\<open>syncOfflineRequests\<close> of the service worker: the replay, then the refresh.\<close>

definition syncOfflineRequests :: "env \<Rightarrow> world \<Rightarrow> world option" where
  "syncOfflineRequests e w =
     (case syncStoredPosts e w of
        None \<Rightarrow> None
      | Some w' \<Rightarrow> Some (refresh_cache e w'))"

subsection \<open>The system, one event at a time\<close>

text \<open>
  An \<^verbatim>\<open>async\<close> function gives control back at each \<^verbatim>\<open>await\<close>, so two passes can be in
  progress at once and their steps interleave. \<open>pass_step\<close> runs a pass from one
  \<^verbatim>\<open>await\<close> to the next; it returns the phase the pass is in afterwards, \<open>None\<close> when
  the function has returned or its promise has rejected.
\<close>

fun pass_step :: "env \<Rightarrow> variant \<Rightarrow> phase \<Rightarrow> world \<Rightarrow> phase option \<times> world" where
  "pass_step e v Starting w =
     (case getAllRequests (db w) of
        Inl err \<Rightarrow> (None, w)
      | Inr requests \<Rightarrow> (Some (Replaying (clock e) requests), w))"
| "pass_step e v (Replaying now []) w =
     (case v of Worker \<Rightarrow> (Some Refreshing, w) | Page \<Rightarrow> (None, w))"
| "pass_step e v (Replaying now (req # requests)) w =
     (case begin_entry v now req w of
        Aborted \<Rightarrow> (None, w)
      | Skipped w' \<Rightarrow> (Some (Replaying now requests), w')
      | Issued i w' \<Rightarrow> (Some (Awaiting now i req requests), w'))"
| "pass_step e v (Awaiting now i req requests) w =
     (case settle_entry v req (net e i) w of
        None \<Rightarrow> (None, w)
      | Some w' \<Rightarrow> (Some (Replaying now requests), w'))"
| "pass_step e v Refreshing w = (None, refresh_cache e w)"

text \<open>
  The \<^verbatim>\<open>message\<close> listener of the service worker: \<^verbatim>\<open>syncOfflineRequests()\<close> is called,
  and not awaited, for every \<^verbatim>\<open>SYNC_OFFLINE_REQUESTS\<close> message.
\<close>

definition sw_on_message :: "message option \<Rightarrow> world \<Rightarrow> world" where
  "sw_on_message data w =
     (case data of
        None \<Rightarrow> w
      | Some m \<Rightarrow>
          (if m = SYNC_OFFLINE_REQUESTS then w\<lparr>passes := passes w @ [(Worker, Starting)]\<rparr> else w))"

text \<open>The \<^verbatim>\<open>message\<close> listener of the page.\<close>

definition page_on_message :: "message option \<Rightarrow> world \<Rightarrow> world" where
  "page_on_message data w =
     (case data of
        None \<Rightarrow> w
      | Some (OFFLINE_REQUEST_SAVED u m) \<Rightarrow> w\<lparr>ui := notifyUser (SavedForLater m u) Info (ui w)\<rparr>
      | Some OFFLINE_USAGE \<Rightarrow> w\<lparr>ui := notifyUser OfflineLoaded Success (ui w)\<rparr>
      | Some (OFFLINE_REQUEST_SYNCED u m) \<Rightarrow> w\<lparr>ui := notifyUser (SyncedTo m u) Success (ui w)\<rparr>
      | Some SYNC_OFFLINE_REQUESTS \<Rightarrow> w\<lparr>passes := passes w @ [(Page, Starting)]\<rparr>
      | Some Unrecognized \<Rightarrow> w)"

text \<open>
  The \<^verbatim>\<open>online\<close> listener of the page posts \<^verbatim>\<open>SYNC_OFFLINE_REQUESTS\<close> to the service
  worker that controls the page, if there is one.
\<close>

definition on_online :: "bool \<Rightarrow> world \<Rightarrow> world" where
  "on_online controller w = (if controller then sw_on_message (Some SYNC_OFFLINE_REQUESTS) w else w)"

text \<open>
  The events of the system: a message to the service worker or to the page, the page coming
  back online (with or without a controlling worker), an intercepted request, the
  continuation of the pass at a position of \<open>passes\<close>, a timeout of the page expiring,
  and IndexedDB becoming available or unavailable. The function the page exports as
  \<^verbatim>\<open>window.smartCache.saveOfflineRequest\<close>, by which other scripts store records of
  their own making, is not among them: the queue is filled by the fetch handler.
\<close>

datatype event =
    SwMessage "message option"
  | PageMessage "message option"
  | Online bool
  | FetchEvent env request
  | Advance nat env
  | Timeout nat
  | Storage bool

definition advance :: "nat \<Rightarrow> env \<Rightarrow> world \<Rightarrow> world" where
  "advance i e w =
     (if i < length (passes w) then
        (case pass_step e (fst (passes w ! i)) (snd (passes w ! i)) w of
           (None, w') \<Rightarrow> w'\<lparr>passes := take i (passes w) @ drop (Suc i) (passes w)\<rparr>
         | (Some ph, w') \<Rightarrow> w'\<lparr>passes := (passes w)[i := (fst (passes w ! i), ph)]\<rparr>)
      else w)"

fun step :: "event \<Rightarrow> world \<Rightarrow> world" where
  "step (SwMessage data) w = sw_on_message data w"
| "step (PageMessage data) w = page_on_message data w"
| "step (Online controller) w = on_online controller w"
| "step (FetchEvent e request) w = snd (fetch_handler e request w)"
| "step (Advance i e) w = advance i e w"
| "step (Timeout k) w = w\<lparr>ui := fire k (ui w)\<rparr>"
| "step (Storage b) w = w\<lparr>db := (db w)\<lparr>available := b\<rparr>\<rparr>"

definition run :: "event list \<Rightarrow> world \<Rightarrow> world" where
  "run evs w = foldl (\<lambda>s ev. step ev s) w evs"

definition world_init :: "bool \<Rightarrow> world" where
  "world_init flag =
     \<lparr>db = \<lparr>available = True, keygen = 1, recs = []\<rparr>, cache = [], posted = [],
      ui = page_init flag, calls = [], passes = []\<rparr>"

subsection \<open>Well-formed stores, pages and worlds\<close>

text \<open>
  What IndexedDB guarantees of an object store with a key generator: the records are in
  strictly ascending key order, and every key is below the next key to be generated.
\<close>

definition idb_ok :: "idb \<Rightarrow> bool" where
  "idb_ok s = (sorted_wrt (<) (map fst (recs s)) \<and> list_all (\<lambda>r. fst r < keygen s) (recs s))"

definition queue_ok :: "idb \<Rightarrow> bool" where
  "queue_ok s = list_all (\<lambda>r. retryCount (snd r) \<le> MAX_RETRIES) (recs s)"

text \<open>A pass that waits for a \<^verbatim>\<open>fetch\<close> has found the entry not expired.\<close>

fun pass_ok :: "variant \<times> phase \<Rightarrow> bool" where
  "pass_ok (v, Awaiting now i req requests) = (\<not> expired v now (snd req))"
| "pass_ok (v, ph) = True"

definition world_ok :: "world \<Rightarrow> bool" where
  "world_ok w = (idb_ok (db w) \<and> queue_ok (db w) \<and> list_all pass_ok (passes w))"

text \<open>
  What holds of the page between two events: while a message is showing, its box is the
  only child of the container and one timeout, for that box, is pending; otherwise there is
  no box, no timeout and no waiting message.
\<close>

definition page_ok :: "page \<Rightarrow> bool" where
  "page_ok d =
     (if isShowingMessage d
      then length (children d) = 1
           \<and> (timers d = [FadeOut (box_id (hd (children d)))]
                \<or> timers d = [RemoveBox (box_id (hd (children d)))])
      else children d = [] \<and> timers d = [] \<and> messageQueue d = [])"

subsection \<open>Vocabulary of the theorems\<close>

text \<open>The record of an entry after a failed replay, and the network call that replays an entry.\<close>

definition bumped :: "request_data \<Rightarrow> request_data" where
  "bumped req = req\<lparr>retryCount := retryCount req + 1\<rparr>"

definition call_of :: "variant \<Rightarrow> stored \<Rightarrow> call" where
  "call_of v req = Replayed (fst req) (fetch_of v (snd req))"

definition live :: "variant \<Rightarrow> int \<Rightarrow> stored \<Rightarrow> bool" where
  "live v now req = (\<not> expired v now (snd req))"

text \<open>A \<^verbatim>\<open>fetch\<close> of the replay fails when it rejects or resolves with a response that is not ok.\<close>

definition failed :: "response option \<Rightarrow> bool" where
  "failed outcome = (case outcome of None \<Rightarrow> True | Some response \<Rightarrow> \<not> ok response)"

text \<open>The notice the page script shows for a failed replay.\<close>

definition failure_notice :: "response option \<Rightarrow> request_data \<Rightarrow> notice" where
  "failure_notice outcome req =
     (case outcome of
        None \<Rightarrow> ErrorSyncing (http_method req) (url req)
      | Some response \<Rightarrow> FailedToSync (http_method req) (url req) (status response))"

text \<open>Saving several requests one after the other.\<close>

fun save_all :: "request_data list \<Rightarrow> idb \<Rightarrow> error + idb" where
  "save_all [] s = Inr s"
| "save_all (d # ds) s = (case saveRequest d s of Inl err \<Rightarrow> Inl err | Inr s' \<Rightarrow> save_all ds s')"

text \<open>Writing a retry count into the record of key \<open>k\<close>, if there is one.\<close>

definition set_rc :: "nat \<Rightarrow> nat \<Rightarrow> stored \<Rightarrow> stored" where
  "set_rc k n r = (if fst r = k then (fst r, (snd r)\<lparr>retryCount := n\<rparr>) else r)"

text \<open>The records of the store after the loop body has run for \<open>req\<close> with \<open>outcome\<close>.\<close>

definition entry_recs :: "variant \<Rightarrow> int \<Rightarrow> response option \<Rightarrow> stored \<Rightarrow> stored list \<Rightarrow> stored list" where
  "entry_recs v now outcome req xs =
     (if expired v now (snd req) \<or> \<not> failed outcome
      then filter (\<lambda>x. fst x \<noteq> fst req) xs
      else map (set_rc (fst req) (retryCount (snd req) + 1)) xs)"

text \<open>
  The ways one event changes the object store: not at all (at most its availability), by
  a \<^verbatim>\<open>delete\<close>, by writing a retry count that is at most \<open>MAX_RETRIES\<close>, or by an
  \<^verbatim>\<open>add\<close> of a record with retry count 0.
\<close>

definition store_change :: "idb \<Rightarrow> idb \<Rightarrow> bool" where
  "store_change s s' =
     ((recs s' = recs s \<and> keygen s' = keygen s)
      \<or> (\<exists>k. s' = store_delete k s)
      \<or> (\<exists>k n. n \<le> MAX_RETRIES \<and> s' = s\<lparr>recs := map (set_rc k n) (recs s)\<rparr>)
      \<or> (\<exists>d. retryCount d = 0 \<and> s' = store_add d s))"

fun is_advance :: "event \<Rightarrow> bool" where
  "is_advance (Advance i e) = True"
| "is_advance ev = False"

text \<open>
  The number of continuations the loop takes for a snapshot: one for an expired entry,
  two (the call issued, the call settled) for any other.
\<close>

fun lone_steps :: "variant \<Rightarrow> int \<Rightarrow> stored list \<Rightarrow> nat" where
  "lone_steps v now [] = 0"
| "lone_steps v now (req # requests) =
     (if expired v now (snd req) then 1 else 2) + lone_steps v now requests"

text \<open>Every message handed to \<^verbatim>\<open>notifyUser\<close> that was not dropped: shown, or waiting.\<close>

definition notified :: "page \<Rightarrow> (notice \<times> ntype) list" where
  "notified d = shown d @ messageQueue d"

text \<open>The box \<^verbatim>\<open>showNextMessage\<close> creates for a message.\<close>

definition box_of :: "nat \<Rightarrow> notice \<times> ntype \<Rightarrow> box" where
  "box_of n m = \<lparr>box_id = n, textContent = fst m, background = colour (snd m), opacity = 1\<rparr>"

subsection \<open>Concrete inputs\<close>

text \<open>A \<^verbatim>\<open>POST /orders\<close> as the page sends it and as the queue holds it, and a \<^verbatim>\<open>GET /data\<close>.\<close>

definition order_data :: request_data where
  "order_data =
     \<lparr>url = ''/orders'', http_method = ''POST'', headers = [(''content-type'', ''application/json'')],
      body = ''{}'', contentType = ''application/json'', timestamp = 0, retryCount = 0\<rparr>"

definition order_request :: request where
  "order_request =
     \<lparr>req_url = ''/orders'', req_method = ''POST'',
      req_headers = [(''content-type'', ''application/json'')], req_body = ''{}''\<rparr>"

definition data_request :: request where
  "data_request = \<lparr>req_url = ''/data'', req_method = ''GET'', req_headers = [], req_body = []\<rparr>"

text \<open>Networks: down, answering 200 to every call, answering 404 to every call.\<close>

definition response_200 :: response where
  "response_200 = \<lparr>status = 200, statusText = ''OK'', resp_headers = [], resp_body = ''fresh''\<rparr>"

definition response_404 :: response where
  "response_404 = \<lparr>status = 404, statusText = ''Not Found'', resp_headers = [], resp_body = []\<rparr>"

definition no_network :: "nat \<Rightarrow> response option" where
  "no_network n = None"

definition answers_200 :: "nat \<Rightarrow> response option" where
  "answers_200 n = Some response_200"

definition answers_404 :: "nat \<Rightarrow> response option" where
  "answers_404 n = Some response_404"

definition offline :: env where
  "offline = \<lparr>clock = 1000, net = no_network, body_readable = True\<rparr>"

definition online_200 :: env where
  "online_200 = \<lparr>clock = 1000, net = answers_200, body_readable = True\<rparr>"

definition online_404 :: env where
  "online_404 = \<lparr>clock = 1000, net = answers_404, body_readable = True\<rparr>"

text \<open>Stores and worlds: an empty store, a store that holds the order, the world around a store.\<close>

definition empty_db :: idb where
  "empty_db = \<lparr>available = True, keygen = 1, recs = []\<rparr>"

definition one_order :: idb where
  "one_order = \<lparr>available = True, keygen = 2, recs = [(1, order_data)]\<rparr>"

definition world_of :: "idb \<Rightarrow> world" where
  "world_of s = (world_init True)\<lparr>db := s\<rparr>"

text \<open>The world after the service worker has replayed the one stored order once, with the network down.\<close>

definition one_retry :: world where
  "one_retry =
     (world_of one_order)
       \<lparr>db := one_order\<lparr>recs := [(1, order_data\<lparr>retryCount := 1\<rparr>)]\<rparr>,
        calls := [call_of Worker (1, order_data)]\<rparr>"

text \<open>The world after a first \<^verbatim>\<open>GET /data\<close> that the network answered with status 200.\<close>

definition data_cached :: world where
  "data_cached = snd (fetch_handler online_200 data_request (world_init True))"

text \<open>Three operations, to be enqueued in the order A, B, C.\<close>

definition op_a :: request_data where
  "op_a = order_data\<lparr>url := ''/a''\<rparr>"

definition op_b :: request_data where
  "op_b = order_data\<lparr>url := ''/b'', http_method := ''PUT''\<rparr>"

definition op_c :: request_data where
  "op_c = order_data\<lparr>url := ''/c'', http_method := ''DELETE''\<rparr>"





text \<open>Two messages published in a row, then the first timeout of the first box.\<close>

definition two_published :: "page_event list" where
  "two_published =
     [Publish OfflineLoaded Success, Publish (SyncedTo ''POST'' ''/orders'') Success, Fire 0]"

text \<open>
  From the initial state: a \<^verbatim>\<open>POST /orders\<close> fails and is queued, a sync message
  starts a pass, the pass takes its snapshot and issues the \<^verbatim>\<open>fetch\<close> of the entry.
\<close>

definition pass_running :: "event list" where
  "pass_running =
     [FetchEvent offline order_request,
      SwMessage (Some SYNC_OFFLINE_REQUESTS), Advance 0 offline, Advance 0 offline]"

text \<open>
  While that \<^verbatim>\<open>fetch\<close> is pending, one more sync message arrives and the pass it starts
  runs to its end with the network still down: snapshot, call issued, call failed, end of
  the loop, cache refresh. In \<open>overlapping\<close> this happens twice.
\<close>

definition second_pass :: "event list" where
  "second_pass =
     [SwMessage (Some SYNC_OFFLINE_REQUESTS), Advance 1 offline, Advance 1 offline,
      Advance 1 offline, Advance 1 offline, Advance 1 offline]"

definition overlapping :: "event list" where
  "overlapping = pass_running @ second_pass @ second_pass"

text \<open>
  A store that holds the three operations, a network that fails the second call it gets
  and answers 200 to every other, and the world the worker's loop is in when it reaches
  the second entry (the first has been sent, deleted and reported).
\<close>

definition three_ops :: world where
  "three_ops = world_of \<lparr>available = True, keygen = 4, recs = [(1, op_a), (2, op_b), (3, op_c)]\<rparr>"

definition second_call_fails :: "nat \<Rightarrow> response option" where
  "second_call_fails n = (if n = 1 then None else Some response_200)"

definition flaky :: env where
  "flaky = \<lparr>clock = 1000, net = second_call_fails, body_readable = True\<rparr>"

definition at_second :: world where
  "at_second =
     three_ops
       \<lparr>db := \<lparr>available = True, keygen = 4, recs = [(2, op_b), (3, op_c)]\<rparr>,
        posted := [OFFLINE_REQUEST_SYNCED ''/a'' ''POST''],
        calls := [call_of Worker (1, op_a)]\<rparr>"

text \<open>
  A pass over the three operations whose first \<^verbatim>\<open>fetch\<close> is pending when IndexedDB
  becomes unavailable, and a pass over the old and the tired entry that has taken its
  snapshot when IndexedDB becomes unavailable.
\<close>

definition outage_during_fetch :: "event list" where
  "outage_during_fetch =
     [SwMessage (Some SYNC_OFFLINE_REQUESTS), Advance 0 offline, Advance 0 offline,
      Storage False, Advance 0 offline]"




section \<open>Theorems\<close>

text \<open>
  C10. Calling \<^verbatim>\<open>updateRequestRetryCount\<close> with an id that has no record in the store
  (a store that can be opened: there is no looking for a record otherwise) resolves, and
  the store it leaves is the store it found: no record created, none modified.
\<close>

theorem update_missing_id_is_noop:
  assumes "available s" and "k \<notin> fst ` set (recs s)"
  shows "updateRequestRetryCount k n s = Inr s"
proof -
  from assms(2) have "map_of (recs s) k = None"
    by (simp add: map_of_eq_None_iff)
  with assms(1) show ?thesis
    by (simp add: updateRequestRetryCount_def openDB_def store_get_def)
qed

theorem update_missing_id_is_noop_witness:
  "available one_order \<and> 7 \<notin> fst ` set (recs one_order) \<and>
   updateRequestRetryCount 7 3 one_order = Inr one_order"
  using update_missing_id_is_noop [of one_order 7 3] by (simp add: one_order_def)


subsection \<open>The object store\<close>

lemma insort_key_last:
  "\<forall>x\<in>set xs. fst x < k \<Longrightarrow> insort_key fst (k, d) xs = xs @ [(k, d)]"
  by (induction xs) auto

lemma insort_key_first:
  "\<forall>x\<in>set xs. k < fst x \<Longrightarrow> insort_key fst (k, d) xs = (k, d) # xs"
  by (cases xs) auto

lemma store_add_recs:
  "idb_ok s \<Longrightarrow> recs (store_add d s) = recs s @ [(keygen s, d)]"
  by (simp add: store_add_def idb_ok_def insort_key_last list_all_iff)

lemma idb_ok_store_add: "idb_ok s \<Longrightarrow> idb_ok (store_add d s)"
proof -
  assume a: "idb_ok s"
  have r: "recs (store_add d s) = recs s @ [(keygen s, d)]" using a by (rule store_add_recs)
  have k: "keygen (store_add d s) = Suc (keygen s)" by (simp add: store_add_def)
  show ?thesis using a unfolding idb_ok_def r k
    by (auto simp: sorted_wrt_append list_all_iff less_Suc_eq)
qed

lemma idb_ok_store_delete: "idb_ok s \<Longrightarrow> idb_ok (store_delete k s)"
  by (auto simp: idb_ok_def store_delete_def list_all_iff sorted_wrt_map sorted_wrt_filter)

lemma put_replaces:
  "sorted_wrt (<) (map fst xs) \<Longrightarrow> map_of xs k = Some d \<Longrightarrow>
   insort_key fst (k, d') (filter (\<lambda>x. fst x \<noteq> k) xs) = map (\<lambda>x. if fst x = k then (k, d') else x) xs"
proof (induction xs)
  case Nil
  then show ?case by simp
next
  case (Cons y ys)
  show ?case
  proof (cases "fst y = k")
    case True
    from Cons.prems(1) True have gt: "\<forall>x\<in>set ys. k < fst x" by auto
    then have "filter (\<lambda>x. fst x \<noteq> k) ys = ys" by (auto simp: filter_id_conv)
    moreover have "map (\<lambda>x. if fst x = k then (k, d') else x) ys = ys"
      using gt by (intro map_idI) auto
    ultimately show ?thesis using True gt by (simp add: insort_key_first)
  next
    case False
    with Cons.prems(2) have m: "map_of ys k = Some d" by (cases y) (auto split: if_splits)
    then have "k \<in> fst ` set ys" by (auto dest: map_of_SomeD intro: rev_image_eqI)
    with Cons.prems(1) have "fst y < k" by auto
    with Cons.IH m Cons.prems(1) False show ?thesis by simp
  qed
qed

lemma updateRequestRetryCount_recs:
  assumes "available s" and "idb_ok s"
  shows "updateRequestRetryCount k n s = Inr (s\<lparr>recs := map (set_rc k n) (recs s)\<rparr>)"
proof (cases "map_of (recs s) k")
  case None
  then have "k \<notin> fst ` set (recs s)" by (simp add: map_of_eq_None_iff)
  then have "map (set_rc k n) (recs s) = recs s"
    by (intro map_idI) (auto simp: set_rc_def)
  with None assms(1) show ?thesis
    by (simp add: updateRequestRetryCount_def openDB_def store_get_def)
next
  case (Some d)
  from assms(2) have s: "sorted_wrt (<) (map fst (recs s))" by (simp add: idb_ok_def)
  then have dist: "distinct (map fst (recs s))" by (simp add: strict_sorted_iff)
  have "map (\<lambda>x. if fst x = k then (k, d\<lparr>retryCount := n\<rparr>) else x) (recs s) = map (set_rc k n) (recs s)"
  proof (rule map_cong[OF refl])
    fix x assume x: "x \<in> set (recs s)"
    show "(if fst x = k then (k, d\<lparr>retryCount := n\<rparr>) else x) = set_rc k n x"
    proof (cases "fst x = k")
      case True
      with x have "(k, snd x) \<in> set (recs s)" by (metis prod.collapse)
      with dist have "map_of (recs s) k = Some (snd x)" by simp
      with Some True show ?thesis by (simp add: set_rc_def)
    next
      case False
      then show ?thesis by (simp add: set_rc_def)
    qed
  qed
  with put_replaces[OF s Some, of "d\<lparr>retryCount := n\<rparr>"] Some assms(1) show ?thesis
    by (simp add: updateRequestRetryCount_def openDB_def store_get_def store_put_def)
qed


subsection \<open>The fetch handler\<close>



text \<open>
  C6. A \<^verbatim>\<open>GET\<close> or \<^verbatim>\<open>HEAD\<close> request whose network call rejects: when the cache holds a
  response for the request, that response is returned and \<^verbatim>\<open>OFFLINE_USAGE\<close> is posted;
  when it holds none, the synthesized response of status 503 is returned and nothing is
  posted. The handler returns a response in both cases.
\<close>

theorem read_request_offline:
  assumes "req_method request = ''GET'' \<or> req_method request = ''HEAD''"
    and "net e (length (calls w)) = None"
  shows "fetch_handler e request w =
     (case cacheMatch (req_method request, req_url request) (cache w) of
        Some cached \<Rightarrow>
          (cached, w\<lparr>calls := calls w @ [Intercepted request], posted := posted w @ [OFFLINE_USAGE]\<rparr>)
      | None \<Rightarrow> (response_503, w\<lparr>calls := calls w @ [Intercepted request]\<rparr>))
    \<and> status response_503 = 503"
  using assms
  by (auto simp: fetch_handler_def fetch_read_def sendMessageToClients_def Let_def
      response_503_def split: option.splits)

theorem read_request_offline_witness:
  "(req_method data_request = ''GET'' \<or> req_method data_request = ''HEAD'')
   \<and> net offline (length (calls data_cached)) = None
   \<and> fst (fetch_handler offline data_request data_cached) = response_200
   \<and> posted (snd (fetch_handler offline data_request data_cached))
       = [OFFLINE_REQUEST_SYNCED ''/data'' ''GET'', OFFLINE_USAGE]
   \<and> net offline (length (calls (world_init True))) = None
   \<and> fetch_handler offline data_request (world_init True)
       = (response_503, (world_init True)\<lparr>calls := [Intercepted data_request]\<rparr>)"
  using read_request_offline [of data_request offline data_cached]
    read_request_offline [of data_request offline "world_init True"]
  by (simp add: data_cached_def data_request_def offline_def no_network_def online_200_def
      answers_200_def world_init_def fetch_handler_def fetch_read_def sendMessageToClients_def
      cachePut_def cacheMatch_def Let_def)

text \<open>
  C2. The handler puts into the cache whatever response the network gives: a
  \<^verbatim>\<open>GET /data\<close> answered with status 404, which is not in the range 200-299, leaves
  the 404 response in the cache; and the refresh of a cache that holds a 200 response for
  \<^verbatim>\<open>/data\<close> overwrites it with the 404 response the network gives.
\<close>

theorem any_status_is_cached:
  "\<not> ok response_404
   \<and> cacheMatch (''GET'', ''/data'') (cache (snd (fetch_handler online_404 data_request (world_init True))))
       = Some response_404
   \<and> cacheMatch (''GET'', ''/data'') (cache data_cached) = Some response_200
   \<and> cacheMatch (''GET'', ''/data'') (cache (refresh_cache online_404 data_cached)) = Some response_404"
  by (simp add: data_cached_def data_request_def online_404_def answers_404_def online_200_def
      answers_200_def world_init_def fetch_handler_def fetch_read_def sendMessageToClients_def
      cachePut_def cacheMatch_def Let_def ok_def response_404_def refresh_cache_def refresh_one_def)



subsection \<open>The loop body\<close>

lemma deleteRequest_available:
  "available s \<Longrightarrow> deleteRequest k s = Inr (store_delete k s)"
  by (simp add: deleteRequest_def openDB_def)

lemma store_delete_simps:
  "available (store_delete k s) = available s"
  "keygen (store_delete k s) = keygen s"
  "recs (store_delete k s) = filter (\<lambda>x. fst x \<noteq> k) (recs s)"
  by (simp_all add: store_delete_def)

lemma on_synced_frame:
  "db (on_synced v d w) = db w" "calls (on_synced v d w) = calls w"
  "cache (on_synced v d w) = cache w" "passes (on_synced v d w) = passes w"
  by (cases v; simp add: sendMessageToClients_def)+

lemma on_not_ok_frame:
  "db (on_not_ok v d r w) = db w" "calls (on_not_ok v d r w) = calls w"
  "cache (on_not_ok v d r w) = cache w" "passes (on_not_ok v d r w) = passes w"
  by (cases v; simp)+

lemma on_caught_frame:
  "db (on_caught v d w) = db w" "calls (on_caught v d w) = calls w"
  "cache (on_caught v d w) = cache w" "passes (on_caught v d w) = passes w"
  by (cases v; simp)+

lemma settle_entry_effect:
  assumes "available (db w)" and "idb_ok (db w)"
  shows "\<exists>w'. settle_entry v r outcome w = Some w'
           \<and> db w' = (db w)\<lparr>recs := (if failed outcome
                                      then map (set_rc (fst r) (retryCount (snd r) + 1)) (recs (db w))
                                      else filter (\<lambda>x. fst x \<noteq> fst r) (recs (db w)))\<rparr>
           \<and> calls w' = calls w \<and> cache w' = cache w \<and> passes w' = passes w"
proof (cases outcome)
  case None
  then show ?thesis using assms
    by (simp add: settle_entry_def catch_block_def updateRequestRetryCount_recs failed_def
        on_caught_frame)
next
  case (Some response)
  then show ?thesis using assms
    by (simp add: settle_entry_def updateRequestRetryCount_recs deleteRequest_available
        failed_def on_synced_frame on_not_ok_frame store_delete_def)
qed

lemma replay_entry_effect:
  assumes "available (db w)" and "idb_ok (db w)"
  shows "\<exists>w'. replay_entry e v now r w = Some w'
           \<and> db w' = (db w)\<lparr>recs := entry_recs v now (net e (length (calls w))) r (recs (db w))\<rparr>
           \<and> calls w' = calls w @ (if live v now r then [call_of v r] else [])
           \<and> cache w' = cache w \<and> passes w' = passes w"
proof (cases "expired v now (snd r)")
  case True
  then show ?thesis using assms
    by (simp add: replay_entry_def begin_entry_def deleteRequest_available entry_recs_def
        store_delete_def live_def)
next
  case False
  let ?w1 = "w\<lparr>calls := calls w @ [Replayed (fst r) (fetch_of v (snd r))]\<rparr>"
  have "available (db ?w1)" "idb_ok (db ?w1)" using assms by simp_all
  from settle_entry_effect[OF this, of v r "net e (length (calls w))"] False
  show ?thesis
    by (auto simp: replay_entry_def begin_entry_def entry_recs_def call_of_def live_def)
qed

lemma idb_ok_entry_recs:
  "idb_ok s \<Longrightarrow> idb_ok (s\<lparr>recs := entry_recs v now outcome r (recs s)\<rparr>)"
proof -
  have f: "fst (set_rc k n x) = fst x" for k n x
    by (simp add: set_rc_def)
  have a: "list_all (\<lambda>r. fst r < g) (map (set_rc k n) xs) = list_all (\<lambda>r. fst r < g) xs" for g k n xs
    by (induction xs) (auto simp: set_rc_def)
  assume "idb_ok s"
  then show ?thesis
    by (auto simp: idb_ok_def entry_recs_def f a sorted_wrt_map sorted_wrt_filter list_all_iff)
qed

lemma replay_append:
  "replay e v now (xs @ ys) w =
     (case replay e v now xs w of None \<Rightarrow> None | Some w' \<Rightarrow> replay e v now ys w')"
  by (induction xs arbitrary: w) (auto split: option.splits)

lemma replay_effect:
  assumes "available (db w)" and "idb_ok (db w)"
  shows "\<exists>w'. replay e v now rs w = Some w'
           \<and> available (db w') \<and> idb_ok (db w') \<and> keygen (db w') = keygen (db w)
           \<and> calls w' = calls w @ map (call_of v) (filter (live v now) rs)
           \<and> cache w' = cache w \<and> passes w' = passes w"
  using assms
proof (induction rs arbitrary: w)
  case Nil
  then show ?case by simp
next
  case (Cons r rs)
  from replay_entry_effect[OF Cons.prems, of e v now r] obtain w1 where
    w1: "replay_entry e v now r w = Some w1"
      "db w1 = (db w)\<lparr>recs := entry_recs v now (net e (length (calls w))) r (recs (db w))\<rparr>"
      "calls w1 = calls w @ (if live v now r then [call_of v r] else [])"
      "cache w1 = cache w" "passes w1 = passes w"
    by blast
  have a1: "available (db w1)" using w1(2) Cons.prems(1) by simp
  have i1: "idb_ok (db w1)" using w1(2) idb_ok_entry_recs[OF Cons.prems(2)] by simp
  from Cons.IH[OF a1 i1] obtain w' where
    w': "replay e v now rs w1 = Some w'" "available (db w')" "idb_ok (db w')"
      "keygen (db w') = keygen (db w1)"
      "calls w' = calls w1 @ map (call_of v) (filter (live v now) rs)"
      "cache w' = cache w1" "passes w' = passes w1"
    by blast
  show ?case using w1 w' by simp
qed


subsection \<open>What a pass does to one key\<close>

lemma map_of_filter_key:
  "map_of (filter (\<lambda>x. fst x \<noteq> k) xs) k' = (if k' = k then None else map_of xs k')"
  by (induction xs) auto

lemma map_of_set_rc:
  "map_of (map (set_rc k n) xs) k' =
     (if k' = k then map_option (\<lambda>d. d\<lparr>retryCount := n\<rparr>) (map_of xs k') else map_of xs k')"
  by (induction xs) (auto simp: set_rc_def)

lemma map_of_entry_recs_other:
  "k \<noteq> fst r \<Longrightarrow> map_of (entry_recs v now outcome r xs) k = map_of xs k"
  by (simp add: entry_recs_def map_of_filter_key map_of_set_rc)

lemma replay_frame:
  assumes "available (db w)" and "idb_ok (db w)" and "k \<notin> fst ` set rs"
    and "replay e v now rs w = Some w'"
  shows "store_get k (db w') = store_get k (db w)"
  using assms
proof (induction rs arbitrary: w)
  case Nil
  then show ?case by simp
next
  case (Cons r rs)
  from replay_entry_effect[OF Cons.prems(1,2), of e v now r] obtain w1 where
    w1: "replay_entry e v now r w = Some w1"
      "db w1 = (db w)\<lparr>recs := entry_recs v now (net e (length (calls w))) r (recs (db w))\<rparr>"
    by blast
  have a1: "available (db w1)" using w1(2) Cons.prems(1) by simp
  have i1: "idb_ok (db w1)" using w1(2) idb_ok_entry_recs[OF Cons.prems(2)] by simp
  from Cons.prems(3) have k: "k \<noteq> fst r" "k \<notin> fst ` set rs" by auto
  from Cons.prems(4) w1(1) have "replay e v now rs w1 = Some w'" by simp
  from Cons.IH[OF a1 i1 k(2) this] have "store_get k (db w') = store_get k (db w1)" .
  also have "\<dots> = store_get k (db w)"
    using w1(2) k(1) by (simp add: store_get_def map_of_entry_recs_other)
  finally show ?case .
qed

lemma replay_at:
  assumes "available (db w)" and "idb_ok (db w)" and "distinct (map fst (pre @ r # post))"
  shows "\<exists>w1 w2 w'. replay e v now pre w = Some w1
           \<and> calls w1 = calls w @ map (call_of v) (filter (live v now) pre)
           \<and> store_get (fst r) (db w1) = store_get (fst r) (db w)
           \<and> available (db w1) \<and> idb_ok (db w1)
           \<and> replay_entry e v now r w1 = Some w2
           \<and> replay e v now (pre @ r # post) w = Some w'
           \<and> store_get (fst r) (db w') = store_get (fst r) (db w2)
           \<and> available (db w') \<and> idb_ok (db w')
           \<and> calls w' = calls w @ map (call_of v) (filter (live v now) (pre @ r # post))"
proof -
  from assms(3) have nk: "fst r \<notin> fst ` set pre" "fst r \<notin> fst ` set post" by auto
  from replay_effect[OF assms(1,2), of e v now pre] obtain w1 where
    w1: "replay e v now pre w = Some w1" "available (db w1)" "idb_ok (db w1)"
      "calls w1 = calls w @ map (call_of v) (filter (live v now) pre)"
    by blast
  have g1: "store_get (fst r) (db w1) = store_get (fst r) (db w)"
    using replay_frame[OF assms(1,2) nk(1) w1(1)] .
  from replay_entry_effect[OF w1(2,3), of e v now r] obtain w2 where
    w2: "replay_entry e v now r w1 = Some w2"
      "db w2 = (db w1)\<lparr>recs := entry_recs v now (net e (length (calls w1))) r (recs (db w1))\<rparr>"
    by blast
  have a2: "available (db w2)" using w2(2) w1(2) by simp
  have i2: "idb_ok (db w2)" using w2(2) idb_ok_entry_recs[OF w1(3)] by simp
  from replay_effect[OF a2 i2, of e v now post] obtain w' where
    w': "replay e v now post w2 = Some w'" "available (db w')" "idb_ok (db w')"
    by blast
  have g2: "store_get (fst r) (db w') = store_get (fst r) (db w2)"
    using replay_frame[OF a2 i2 nk(2) w'(1)] .
  have whole: "replay e v now (pre @ r # post) w = Some w'"
    using w1(1) w2(1) w'(1) by (simp add: replay_append)
  from replay_effect[OF assms(1,2), of e v now "pre @ r # post"] whole
  have c: "calls w' = calls w @ map (call_of v) (filter (live v now) (pre @ r # post))"
    by auto
  show ?thesis using w1 g1 w2(1) whole g2 w'(2,3) c by blast
qed



lemma replay_failed:
  assumes "available (db w)" and "idb_ok (db w)" and "distinct (map fst (pre @ r # post))"
    and "store_get (fst r) (db w) = Some (snd r)" and "live v now r"
    and "failed (net e (length (calls w) + length (filter (live v now) pre)))"
  shows "\<exists>w'. replay e v now (pre @ r # post) w = Some w'
           \<and> store_get (fst r) (db w') = Some (bumped (snd r))
           \<and> available (db w') \<and> idb_ok (db w')
           \<and> calls w' = calls w @ map (call_of v) (filter (live v now) (pre @ r # post))"
proof -
  from replay_at[OF assms(1,2,3), of e v now] obtain w1 w2 w' where
    h: "calls w1 = calls w @ map (call_of v) (filter (live v now) pre)"
       "store_get (fst r) (db w1) = store_get (fst r) (db w)"
       "available (db w1)" "idb_ok (db w1)" "replay_entry e v now r w1 = Some w2"
       "replay e v now (pre @ r # post) w = Some w'"
       "store_get (fst r) (db w') = store_get (fst r) (db w2)"
       "available (db w')" "idb_ok (db w')"
       "calls w' = calls w @ map (call_of v) (filter (live v now) (pre @ r # post))"
    by blast
  from replay_entry_effect[OF h(3,4), of e v now r] h(5)
  have "db w2 = (db w1)\<lparr>recs := entry_recs v now (net e (length (calls w1))) r (recs (db w1))\<rparr>"
    by auto
  moreover have "length (calls w1) = length (calls w) + length (filter (live v now) pre)"
    using h(1) by simp
  ultimately have "store_get (fst r) (db w2) = Some (bumped (snd r))"
    using assms(4,5,6) h(2)
    by (simp add: store_get_def entry_recs_def live_def map_of_set_rc bumped_def)
  with h show ?thesis by auto
qed


subsection \<open>Replay order\<close>

lemma saveRequest_available:
  "available s \<Longrightarrow> saveRequest d s = Inr (store_add d s)"
  by (simp add: saveRequest_def openDB_def)

lemma save_all_recs:
  assumes "available s" and "idb_ok s"
  shows "\<exists>s'. save_all ds s = Inr s' \<and> available s' \<and> idb_ok s'
           \<and> recs s' = recs s @ zip [keygen s..<keygen s + length ds] ds"
  using assms
proof (induction ds arbitrary: s)
  case Nil
  then show ?case by simp
next
  case (Cons d ds)
  let ?s1 = "store_add d s"
  have a1: "available ?s1" using Cons.prems(1) by (simp add: store_add_def)
  have i1: "idb_ok ?s1" using Cons.prems(2) by (rule idb_ok_store_add)
  have k1: "keygen ?s1 = Suc (keygen s)" by (simp add: store_add_def)
  from Cons.IH[OF a1 i1] obtain s' where
    s': "save_all ds ?s1 = Inr s'" "available s'" "idb_ok s'"
      "recs s' = recs ?s1 @ zip [keygen ?s1..<keygen ?s1 + length ds] ds"
    by blast
  have "[keygen s..<keygen s + length (d # ds)] = keygen s # [Suc (keygen s)..<Suc (keygen s) + length ds]"
    by (subst upt_rec) simp
  with s' k1 store_add_recs[OF Cons.prems(2), of d] Cons.prems(1) show ?case
    by (simp add: saveRequest_available)
qed

lemma sync_queue_effect:
  assumes "available (db w)" and "idb_ok (db w)"
  shows "\<exists>w'. sync_queue e v w = Some w' \<and> available (db w') \<and> idb_ok (db w')
           \<and> calls w' = calls w @ map (call_of v) (filter (live v (clock e)) (recs (db w)))"
  using replay_effect[OF assms, of e v "clock e" "recs (db w)"] assms(1)
  by (auto simp: sync_queue_def getAllRequests_def openDB_def)

text \<open>
  C3. Requests saved one after the other are appended to the store in that order, under
  keys that increase; a pass issues its network calls for the entries that are not expired
  in the order of the store, whatever the outcomes of the calls; and while a pass waits for
  the \<^verbatim>\<open>fetch\<close> of an entry it issues no other call.
\<close>

theorem replay_order_is_enqueue_order:
  assumes "available s" and "idb_ok s"
  shows "\<exists>s'. save_all ds s = Inr s'
           \<and> recs s' = recs s @ zip [keygen s..<keygen s + length ds] ds
           \<and> sorted_wrt (<) (map fst (recs s'))
           \<and> (\<forall>w. db w = s' \<longrightarrow>
                 (\<exists>w'. sync_queue e v w = Some w'
                    \<and> calls w' = calls w @ map (call_of v) (filter (live v (clock e)) (recs s'))))
           \<and> calls (snd (pass_step e v (Awaiting now i r rs) u)) = calls u"
proof -
  from save_all_recs[OF assms, of ds] obtain s' where
    s': "save_all ds s = Inr s'" "available s'" "idb_ok s'"
      "recs s' = recs s @ zip [keygen s..<keygen s + length ds] ds"
    by blast
  have "\<exists>w'. sync_queue e v w = Some w'
          \<and> calls w' = calls w @ map (call_of v) (filter (live v (clock e)) (recs s'))"
    if "db w = s'" for w
    using sync_queue_effect[of w e v] s'(2,3) that by auto
  moreover have "calls (snd (pass_step e v (Awaiting now i r rs) u)) = calls u"
    by (auto simp: settle_entry_def catch_block_def on_synced_frame on_not_ok_frame on_caught_frame
        split: option.splits sum.splits)
  moreover have "sorted_wrt (<) (map fst (recs s'))"
    using s'(3) by (simp add: idb_ok_def)
  ultimately show ?thesis using s'(1,4) by blast
qed

theorem replay_order_is_enqueue_order_witness:
  "available empty_db \<and> idb_ok empty_db
   \<and> save_all [op_a, op_b, op_c] empty_db
       = Inr (empty_db\<lparr>keygen := 4, recs := [(1, op_a), (2, op_b), (3, op_c)]\<rparr>)
   \<and> map_option calls (sync_queue online_200 Worker
        (world_of (empty_db\<lparr>keygen := 4, recs := [(1, op_a), (2, op_b), (3, op_c)]\<rparr>)))
       = Some [call_of Worker (1, op_a), call_of Worker (2, op_b), call_of Worker (3, op_c)]"
proof -
  have h: "available empty_db" "idb_ok empty_db"
    by (simp_all add: empty_db_def idb_ok_def)
  let ?s = "empty_db\<lparr>keygen := 4, recs := [(1, op_a), (2, op_b), (3, op_c)]\<rparr>"
  have sv: "save_all [op_a, op_b, op_c] empty_db = Inr ?s"
    by (simp add: empty_db_def saveRequest_def openDB_def store_add_def)
  have lv: "filter (live Worker (clock online_200)) (recs ?s) = recs ?s"
    by (simp add: live_def online_200_def op_a_def op_b_def op_c_def order_data_def
        MAX_AGE_def MAX_RETRIES_def)
  from replay_order_is_enqueue_order[OF h, of "[op_a, op_b, op_c]" online_200 Worker]
  obtain s' where a: "save_all [op_a, op_b, op_c] empty_db = Inr s'"
    and b: "\<forall>w. db w = s' \<longrightarrow>
          (\<exists>w'. sync_queue online_200 Worker w = Some w'
             \<and> calls w' = calls w @ map (call_of Worker) (filter (live Worker (clock online_200)) (recs s')))"
    by blast
  from a sv have "s' = ?s" by simp
  with b have "db (world_of ?s) = ?s \<longrightarrow>
          (\<exists>w'. sync_queue online_200 Worker (world_of ?s) = Some w'
             \<and> calls w' = calls (world_of ?s) @ map (call_of Worker) (filter (live Worker (clock online_200)) (recs ?s)))"
    by blast
  then have "\<exists>w'. sync_queue online_200 Worker (world_of ?s) = Some w'
             \<and> calls w' = calls (world_of ?s) @ map (call_of Worker) (recs ?s)"
    unfolding lv by (simp add: world_of_def)
  then show ?thesis using h sv by (auto simp: world_of_def world_init_def)
qed


subsection \<open>Expired entries and failed replays\<close>

lemma expired_iff:
  "expired v now d \<longleftrightarrow> now - timestamp d > MAX_AGE \<or> retryCount d \<ge> MAX_RETRIES"
  by (cases v) auto

lemma stored_lookup:
  assumes "idb_ok s" and "r \<in> set (recs s)"
  shows "store_get (fst r) s = Some (snd r)"
proof -
  from assms(1) have "distinct (map fst (recs s))" by (simp add: idb_ok_def strict_sorted_iff)
  moreover from assms(2) have "(fst r, snd r) \<in> set (recs s)" by simp
  ultimately show ?thesis unfolding store_get_def by (rule map_of_is_SomeI)
qed


lemma sync_queue_failed:
  assumes "available (db w)" and "idb_ok (db w)" and "recs (db w) = pre @ r # post"
    and "live v (clock e) r"
    and "failed (net e (length (calls w) + length (filter (live v (clock e)) pre)))"
  shows "\<exists>w'. sync_queue e v w = Some w' \<and> store_get (fst r) (db w') = Some (bumped (snd r))
           \<and> available (db w') \<and> idb_ok (db w')
           \<and> calls w' = calls w @ map (call_of v) (filter (live v (clock e)) (recs (db w)))"
proof -
  from assms(2,3) have d: "distinct (map fst (pre @ r # post))"
    by (simp add: idb_ok_def strict_sorted_iff)
  from assms(3) have "r \<in> set (recs (db w))" by simp
  with assms(2) have g: "store_get (fst r) (db w) = Some (snd r)" by (rule stored_lookup)
  from replay_failed[OF assms(1,2) d g assms(4,5)] assms(1,3) show ?thesis
    by (simp add: sync_queue_def getAllRequests_def openDB_def)
qed





subsection \<open>Failed replays\<close>

lemma notified_showNextMessage: "notified (showNextMessage d) = notified d"
  by (simp add: notified_def showNextMessage_def split: list.splits)

lemma notified_notifyUser:
  "notified (notifyUser msg t d) = (if SHOW_NOTIFICATIONS d then notified d @ [(msg, t)] else notified d)"
proof -
  have "notified (d\<lparr>messageQueue := messageQueue d @ [(msg, t)]\<rparr>) = notified d @ [(msg, t)]"
    by (simp add: notified_def)
  then show ?thesis
    by (simp add: notifyUser_def Let_def notified_showNextMessage)
qed

lemma replay_entry_failed:
  assumes "available (db u)" and "idb_ok (db u)" and "live v now r"
    and "failed (net e (length (calls u)))"
  shows "replay_entry e v now r u =
     Some ((case v of
              Worker \<Rightarrow> u
            | Page \<Rightarrow> u\<lparr>ui := notifyUser (failure_notice (net e (length (calls u))) (snd r)) Error (ui u)\<rparr>)
           \<lparr>calls := calls u @ [call_of v r],
            db := (db u)\<lparr>recs := map (set_rc (fst r) (retryCount (snd r) + 1)) (recs (db u))\<rparr>\<rparr>)"
proof (cases "net e (length (calls u))")
  case None
  with assms show ?thesis
    by (cases v)
      (simp_all add: replay_entry_def begin_entry_def live_def settle_entry_def catch_block_def
        updateRequestRetryCount_recs call_of_def failure_notice_def)
next
  case (Some response)
  with assms show ?thesis
    by (cases v)
      (simp_all add: replay_entry_def begin_entry_def live_def settle_entry_def failed_def
        updateRequestRetryCount_recs call_of_def failure_notice_def)
qed

text \<open>
  C7. An entry of the store that is not expired and whose replayed network call fails
  (the \<^verbatim>\<open>fetch\<close> rejects, or resolves with a response that is not ok). When the store
  can be opened and the pass runs from its start to its end, the pass completes, the store
  holds the entry with its retry count plus one, and the pass has issued the calls of every
  entry that is not expired, those after the failed one included. The loop body run for
  the entry logs the call and writes the retry count; the page script also hands an
  \<open>Error\<close> notice to \<^verbatim>\<open>notifyUser\<close>, which joins the notices shown or waiting when
  notifications are enabled; the service worker posts no message and shows nothing. In any
  world, the continuation of a pass whose \<^verbatim>\<open>fetch\<close> for the entry has failed writes the
  retry count that the pass read in its snapshot, plus one, over whatever count the store
  holds, and goes on to the entries left in its snapshot, when the database is available;
  when it is not, the write is rejected, the pass ends there and nothing has changed.
\<close>

theorem failed_replay_counts_a_retry:
  assumes "available (db w)" and "idb_ok (db w)" and "recs (db w) = pre @ r # post"
    and "live v (clock e) r"
    and "failed (net e (length (calls w) + length (filter (live v (clock e)) pre)))"
  shows "(\<exists>w'. sync_queue e v w = Some w'
           \<and> store_get (fst r) (db w') = Some (bumped (snd r))
           \<and> calls w' = calls w @ map (call_of v) (filter (live v (clock e)) (recs (db w))))
       \<and> (available (db u) \<and> idb_ok (db u) \<and> failed (net e (length (calls u))) \<longrightarrow>
            replay_entry e Worker (clock e) r u =
              Some (u\<lparr>calls := calls u @ [call_of Worker r],
                      db := (db u)\<lparr>recs := map (set_rc (fst r) (retryCount (snd r) + 1)) (recs (db u))\<rparr>\<rparr>)
          \<and> replay_entry e Page (clock e) r u =
              Some (u\<lparr>calls := calls u @ [call_of Page r],
                      db := (db u)\<lparr>recs := map (set_rc (fst r) (retryCount (snd r) + 1)) (recs (db u))\<rparr>,
                      ui := notifyUser (failure_notice (net e (length (calls u))) (snd r)) Error (ui u)\<rparr>)
          \<and> (SHOW_NOTIFICATIONS (ui u) \<longrightarrow>
                notified (notifyUser (failure_notice (net e (length (calls u))) (snd r)) Error (ui u))
                  = notified (ui u) @ [(failure_notice (net e (length (calls u))) (snd r), Error)]))
       \<and> (available (db y) \<and> idb_ok (db y) \<and> failed (net e' i) \<longrightarrow>
            pass_step e' Worker (Awaiting now i r rs) y =
              (Some (Replaying now rs),
               y\<lparr>db := (db y)\<lparr>recs := map (set_rc (fst r) (retryCount (snd r) + 1)) (recs (db y))\<rparr>\<rparr>)
          \<and> pass_step e' Page (Awaiting now i r rs) y =
              (Some (Replaying now rs),
               y\<lparr>db := (db y)\<lparr>recs := map (set_rc (fst r) (retryCount (snd r) + 1)) (recs (db y))\<rparr>,
                 ui := notifyUser (failure_notice (net e' i) (snd r)) Error (ui y)\<rparr>))
       \<and> (\<not> available (db x) \<and> failed (net e' i) \<longrightarrow>
            pass_step e' v' (Awaiting now i r rs) x = (None, x))"
proof (intro conjI impI)
  from sync_queue_failed[OF assms]
  show "\<exists>w'. sync_queue e v w = Some w'
           \<and> store_get (fst r) (db w') = Some (bumped (snd r))
           \<and> calls w' = calls w @ map (call_of v) (filter (live v (clock e)) (recs (db w)))"
    by blast
next
  assume u: "available (db u) \<and> idb_ok (db u) \<and> failed (net e (length (calls u)))"
  from assms(4) have l: "live Worker (clock e) r" "live Page (clock e) r"
    by (simp_all add: live_def expired_iff)
  from u l(1) show "replay_entry e Worker (clock e) r u =
              Some (u\<lparr>calls := calls u @ [call_of Worker r],
                      db := (db u)\<lparr>recs := map (set_rc (fst r) (retryCount (snd r) + 1)) (recs (db u))\<rparr>\<rparr>)"
    by (simp add: replay_entry_failed)
  from u l(2) show "replay_entry e Page (clock e) r u =
              Some (u\<lparr>calls := calls u @ [call_of Page r],
                      db := (db u)\<lparr>recs := map (set_rc (fst r) (retryCount (snd r) + 1)) (recs (db u))\<rparr>,
                      ui := notifyUser (failure_notice (net e (length (calls u))) (snd r)) Error (ui u)\<rparr>)"
    by (simp add: replay_entry_failed)
  assume "SHOW_NOTIFICATIONS (ui u)"
  then show "notified (notifyUser (failure_notice (net e (length (calls u))) (snd r)) Error (ui u))
                  = notified (ui u) @ [(failure_notice (net e (length (calls u))) (snd r), Error)]"
    by (simp add: notified_notifyUser)
next
  assume y: "available (db y) \<and> idb_ok (db y) \<and> failed (net e' i)"
  then have upd: "updateRequestRetryCount (fst r) (retryCount (snd r) + 1) (db y)
      = Inr ((db y)\<lparr>recs := map (set_rc (fst r) (retryCount (snd r) + 1)) (recs (db y))\<rparr>)"
    by (simp add: updateRequestRetryCount_recs)
  from y upd show "pass_step e' Worker (Awaiting now i r rs) y =
              (Some (Replaying now rs),
               y\<lparr>db := (db y)\<lparr>recs := map (set_rc (fst r) (retryCount (snd r) + 1)) (recs (db y))\<rparr>\<rparr>)"
    by (cases "net e' i") (simp_all add: settle_entry_def catch_block_def failed_def)
  from y upd show "pass_step e' Page (Awaiting now i r rs) y =
              (Some (Replaying now rs),
               y\<lparr>db := (db y)\<lparr>recs := map (set_rc (fst r) (retryCount (snd r) + 1)) (recs (db y))\<rparr>,
                 ui := notifyUser (failure_notice (net e' i) (snd r)) Error (ui y)\<rparr>)"
    by (cases "net e' i")
      (simp_all add: settle_entry_def catch_block_def failed_def failure_notice_def)
next
  assume x: "\<not> available (db x) \<and> failed (net e' i)"
  then have "updateRequestRetryCount (fst r) (retryCount (snd r) + 1) (db x) = Inl StorageError"
    by (simp add: updateRequestRetryCount_def openDB_def)
  with x show "pass_step e' v' (Awaiting now i r rs) x = (None, x)"
    by (cases "net e' i") (simp_all add: settle_entry_def catch_block_def failed_def)
qed

theorem failed_replay_counts_a_retry_witness:
  "available (db three_ops) \<and> idb_ok (db three_ops)
   \<and> recs (db three_ops) = [(1, op_a)] @ (2, op_b) # [(3, op_c)]
   \<and> live Worker (clock flaky) (2, op_b)
   \<and> failed (net flaky (length (calls three_ops)
        + length (filter (live Worker (clock flaky)) [(1, op_a)])))
   \<and> available (db at_second) \<and> idb_ok (db at_second)
   \<and> failed (net flaky (length (calls at_second)))
   \<and> SHOW_NOTIFICATIONS (ui at_second)
   \<and> \<not> available (db (step (Storage False) at_second))
   \<and> (\<exists>w'. sync_queue flaky Worker three_ops = Some w'
         \<and> store_get 2 (db w') = Some (op_b\<lparr>retryCount := 1\<rparr>)
         \<and> calls w' = [call_of Worker (1, op_a), call_of Worker (2, op_b), call_of Worker (3, op_c)])
   \<and> replay_entry flaky Worker (clock flaky) (2, op_b) at_second
       = Some (at_second
           \<lparr>calls := [call_of Worker (1, op_a), call_of Worker (2, op_b)],
            db := (db at_second)\<lparr>recs := [(2, op_b\<lparr>retryCount := 1\<rparr>), (3, op_c)]\<rparr>\<rparr>)
   \<and> notified (notifyUser (ErrorSyncing ''PUT'' ''/b'') Error (ui at_second))
       = [(ErrorSyncing ''PUT'' ''/b'', Error)]
   \<and> pass_step flaky Worker (Awaiting 1000 1 (2, op_b) [(3, op_c)]) at_second
       = (Some (Replaying 1000 [(3, op_c)]),
          at_second\<lparr>db := (db at_second)\<lparr>recs := [(2, op_b\<lparr>retryCount := 1\<rparr>), (3, op_c)]\<rparr>\<rparr>)
   \<and> pass_step flaky Worker (Awaiting 1000 1 (2, op_b) [(3, op_c)]) (step (Storage False) at_second)
       = (None, step (Storage False) at_second)"
proof -
  have h: "available (db three_ops)" "idb_ok (db three_ops)"
    "recs (db three_ops) = [(1, op_a)] @ (2, op_b) # [(3, op_c)]"
    "live Worker (clock flaky) (2, op_b)"
    "failed (net flaky (length (calls three_ops)
        + length (filter (live Worker (clock flaky)) [(1, op_a)])))"
    by (simp_all add: three_ops_def world_of_def idb_ok_def live_def flaky_def op_a_def op_b_def
        order_data_def MAX_AGE_def MAX_RETRIES_def failed_def second_call_fails_def world_init_def)
  have u: "available (db at_second) \<and> idb_ok (db at_second)
      \<and> failed (net flaky (length (calls at_second)))"
    by (simp add: at_second_def idb_ok_def flaky_def failed_def second_call_fails_def)
  have y: "available (db at_second) \<and> idb_ok (db at_second) \<and> failed (net flaky 1)"
    by (simp add: at_second_def idb_ok_def flaky_def failed_def second_call_fails_def)
  have s: "SHOW_NOTIFICATIONS (ui at_second)"
    by (simp add: at_second_def three_ops_def world_of_def world_init_def page_init_def)
  have x: "\<not> available (db (step (Storage False) at_second)) \<and> failed (net flaky 1)"
    by (simp add: flaky_def failed_def second_call_fails_def)
  have c: "calls three_ops = []" "calls at_second = [call_of Worker (1, op_a)]"
    "notified (ui at_second) = []"
    "filter (live Worker (clock flaky)) [(1, op_a), (2, op_b), (3, op_c)]
       = [(1, op_a), (2, op_b), (3, op_c)]"
    "net flaky (length [call_of Worker (1, op_a)]) = None"
    "recs (db three_ops) = [(1, op_a), (2, op_b), (3, op_c)]"
    by (simp_all add: three_ops_def at_second_def world_of_def world_init_def page_init_def
        notified_def flaky_def second_call_fails_def live_def op_a_def op_b_def op_c_def
        order_data_def MAX_AGE_def MAX_RETRIES_def)
  have m: "map (set_rc (fst (2::nat, op_b)) (retryCount (snd (2::nat, op_b)) + 1)) (recs (db at_second))
      = [(2, op_b\<lparr>retryCount := 1\<rparr>), (3, op_c)]"
    by (simp add: at_second_def set_rc_def op_b_def order_data_def)
  have b: "bumped (snd (2::nat, op_b)) = op_b\<lparr>retryCount := 1\<rparr>"
    by (simp add: bumped_def op_b_def order_data_def)
  note t = failed_replay_counts_a_retry[OF h, of at_second at_second flaky 1 1000 "[(3, op_c)]"
      "step (Storage False) at_second" Worker]
  from t have "\<exists>w'. sync_queue flaky Worker three_ops = Some w'
         \<and> store_get (fst (2::nat, op_b)) (db w') = Some (bumped (snd (2::nat, op_b)))
         \<and> calls w' = calls three_ops @ map (call_of Worker)
              (filter (live Worker (clock flaky)) (recs (db three_ops)))"
    by blast
  then have "\<exists>w'. sync_queue flaky Worker three_ops = Some w'
         \<and> store_get 2 (db w') = Some (op_b\<lparr>retryCount := 1\<rparr>)
         \<and> calls w' = [call_of Worker (1, op_a), call_of Worker (2, op_b), call_of Worker (3, op_c)]"
    unfolding b c by simp
  moreover from t u have "replay_entry flaky Worker (clock flaky) (2, op_b) at_second =
      Some (at_second\<lparr>calls := calls at_second @ [call_of Worker (2, op_b)],
         db := (db at_second)\<lparr>recs := map (set_rc (fst (2::nat, op_b))
            (retryCount (snd (2::nat, op_b)) + 1)) (recs (db at_second))\<rparr>\<rparr>)"
    by blast
  then have "replay_entry flaky Worker (clock flaky) (2, op_b) at_second
       = Some (at_second
           \<lparr>calls := [call_of Worker (1, op_a), call_of Worker (2, op_b)],
            db := (db at_second)\<lparr>recs := [(2, op_b\<lparr>retryCount := 1\<rparr>), (3, op_c)]\<rparr>\<rparr>)"
    unfolding m c by simp
  moreover from t u s have "notified (notifyUser (failure_notice (net flaky (length (calls at_second)))
        (snd (2::nat, op_b))) Error (ui at_second))
      = notified (ui at_second) @ [(failure_notice (net flaky (length (calls at_second)))
        (snd (2::nat, op_b)), Error)]"
    by blast
  then have "notified (notifyUser (ErrorSyncing ''PUT'' ''/b'') Error (ui at_second))
       = [(ErrorSyncing ''PUT'' ''/b'', Error)]"
    unfolding c by (simp add: failure_notice_def op_b_def order_data_def)
  moreover from t y have "pass_step flaky Worker (Awaiting 1000 1 (2, op_b) [(3, op_c)]) at_second
       = (Some (Replaying 1000 [(3, op_c)]),
          at_second\<lparr>db := (db at_second)\<lparr>recs := map (set_rc (fst (2::nat, op_b))
            (retryCount (snd (2::nat, op_b)) + 1)) (recs (db at_second))\<rparr>\<rparr>)"
    by blast
  then have "pass_step flaky Worker (Awaiting 1000 1 (2, op_b) [(3, op_c)]) at_second
       = (Some (Replaying 1000 [(3, op_c)]),
          at_second\<lparr>db := (db at_second)\<lparr>recs := [(2, op_b\<lparr>retryCount := 1\<rparr>), (3, op_c)]\<rparr>\<rparr>)"
    unfolding m .
  moreover from t x have
    "pass_step flaky Worker (Awaiting 1000 1 (2, op_b) [(3, op_c)]) (step (Storage False) at_second)
       = (None, step (Storage False) at_second)"
    by blast
  ultimately show ?thesis using h u s x by blast
qed

text \<open>
  The service worker replays the one entry of the store while the network is down, and
  then while the network answers 404: the retry count becomes 1, and nothing is posted
  to the page and no toast is requested. With two passes that have failed while the
  \<^verbatim>\<open>fetch\<close> of an earlier pass was pending, the store holds the retry count 2; that
  \<^verbatim>\<open>fetch\<close> now fails, and the count written is 1, the snapshot's 0 plus one. And when
  IndexedDB becomes unavailable while the \<^verbatim>\<open>fetch\<close> of the first of three entries is
  pending, the failure of that \<^verbatim>\<open>fetch\<close> ends the pass: no retry count is written and
  the two entries that follow are not sent.
\<close>

theorem worker_reports_no_failure:
  "syncOfflineRequests offline (world_of one_order)
     = Some ((world_of one_order)
         \<lparr>db := one_order\<lparr>recs := [(1, order_data\<lparr>retryCount := 1\<rparr>)]\<rparr>,
          calls := [call_of Worker (1, order_data)]\<rparr>)
   \<and> syncOfflineRequests online_404 (world_of one_order)
     = Some ((world_of one_order)
         \<lparr>db := one_order\<lparr>recs := [(1, order_data\<lparr>retryCount := 1\<rparr>)]\<rparr>,
          calls := [call_of Worker (1, order_data)]\<rparr>)
   \<and> posted (world_of one_order) = [] \<and> notified (ui (world_of one_order)) = []
   \<and> map_option retryCount (store_get 1 (db (run overlapping (world_init True)))) = Some 2
   \<and> passes (run overlapping (world_init True))
       = [(Worker, Awaiting 1000 1 (1, requestData_of 1000 order_request) [])]
   \<and> map_option retryCount
       (store_get 1 (db (run (overlapping @ [Advance 0 offline]) (world_init True)))) = Some 1
   \<and> passes (run outage_during_fetch three_ops) = []
   \<and> calls (run outage_during_fetch three_ops) = [call_of Worker (1, op_a)]
   \<and> recs (db (run outage_during_fetch three_ops)) = [(1, op_a), (2, op_b), (3, op_c)]"
  by code_simp


subsection \<open>The toasts\<close>

lemma page_ok_init: "page_ok (page_init flag)"
  by (simp add: page_ok_def page_init_def children_def)

lemma page_ok_showNextMessage:
  assumes "children d = []" and "timers d = []"
  shows "page_ok (showNextMessage d)"
  using assms
  by (cases "messageQueue d") (simp_all add: page_ok_def showNextMessage_def children_def)

lemma page_ok_notifyUser: "page_ok d \<Longrightarrow> page_ok (notifyUser msg t d)"
proof (cases "SHOW_NOTIFICATIONS d \<and> \<not> isShowingMessage d")
  case True
  assume ok: "page_ok d"
  let ?d = "d\<lparr>messageQueue := messageQueue d @ [(msg, t)]\<rparr>"
  from ok True have "children ?d = []" "timers ?d = []"
    by (simp_all add: page_ok_def children_def)
  then have "page_ok (showNextMessage ?d)" by (rule page_ok_showNextMessage)
  with True show ?thesis by (simp add: notifyUser_def Let_def)
next
  case False
  assume "page_ok d"
  with False show ?thesis
    by (auto simp: notifyUser_def Let_def page_ok_def children_def)
qed

lemma page_ok_fire: "page_ok d \<Longrightarrow> page_ok (fire k d)"
proof (cases "k < length (timers d)")
  case False
  assume "page_ok d"
  with False show ?thesis by (simp add: fire_def)
next
  case True
  assume ok: "page_ok d"
  with True have sh: "isShowingMessage d" by (auto simp: page_ok_def split: if_splits)
  with ok obtain b where b: "children d = [b]"
    by (auto simp: page_ok_def length_Suc_conv)
  from ok sh b have t: "timers d = [FadeOut (box_id b)] \<or> timers d = [RemoveBox (box_id b)]"
    by (simp add: page_ok_def)
  with True have k: "k = 0" by auto
  from b have c: "container d = Some [b]" by (simp add: children_def split: option.splits)
  from t show ?thesis
  proof
    assume "timers d = [FadeOut (box_id b)]"
    with k c sh show ?thesis
      by (simp add: fire_def timeout_callback_def page_ok_def children_def)
  next
    assume r: "timers d = [RemoveBox (box_id b)]"
    let ?d = "d\<lparr>timers := [], container := Some [], isShowingMessage := False\<rparr>"
    have "children ?d = []" "timers ?d = []" by (simp_all add: children_def)
    then have "page_ok (showNextMessage ?d)" by (rule page_ok_showNextMessage)
    with r k c show ?thesis by (simp add: fire_def timeout_callback_def)
  qed
qed

lemma page_ok_step: "page_ok d \<Longrightarrow> page_ok (page_step ev d)"
  by (cases ev) (simp_all add: page_ok_notifyUser page_ok_fire)

lemma page_run_append: "page_run (xs @ ys) d = page_run ys (page_run xs d)"
  by (simp add: page_run_def)

lemma page_ok_run: "page_ok d \<Longrightarrow> page_ok (page_run evs d)"
  by (induction evs arbitrary: d) (simp_all add: page_run_def page_ok_step)

lemma show_flag_showNextMessage [simp]:
  "SHOW_NOTIFICATIONS (showNextMessage d) = SHOW_NOTIFICATIONS d"
  by (simp add: showNextMessage_def split: list.splits)

lemma show_flag_step [simp]: "SHOW_NOTIFICATIONS (page_step ev d) = SHOW_NOTIFICATIONS d"
  by (cases ev) (auto simp: notifyUser_def Let_def fire_def timeout_callback_def split: timer.splits)

lemma notified_fire: "notified (fire k d) = notified d"
proof -
  have "notified (timeout_callback t d') = notified d'" for t d'
    by (cases t) (simp_all add: timeout_callback_def notified_showNextMessage, simp_all add: notified_def)
  moreover have "notified (d\<lparr>timers := ts\<rparr>) = notified d" for ts
    by (simp add: notified_def)
  ultimately show ?thesis by (simp add: fire_def)
qed

lemma notified_run:
  "SHOW_NOTIFICATIONS d \<Longrightarrow> notified (page_run evs d) = notified d @ published evs"
proof (induction evs arbitrary: d)
  case Nil
  then show ?case by (simp add: page_run_def published_def)
next
  case (Cons ev evs)
  have "page_run (ev # evs) d = page_run evs (page_step ev d)" by (simp add: page_run_def)
  moreover have "notified (page_step ev d) = notified d @ published [ev]"
    using Cons.prems by (cases ev) (simp_all add: notified_notifyUser notified_fire published_def)
  moreover have "published (ev # evs) = published [ev] @ published evs"
    by (simp add: published_def)
  ultimately show ?case using Cons.IH[of "page_step ev d"] Cons.prems by simp
qed


lemma fire_idle: "timers d = [] \<Longrightarrow> fire k d = d"
  by (simp add: fire_def)

lemma fire_fade:
  assumes "timers d = [FadeOut n]"
  shows "fire 0 d = d\<lparr>container := map_option (map (\<lambda>x. if box_id x = n then x\<lparr>opacity := 0\<rparr> else x)) (container d),
                       timers := [RemoveBox n]\<rparr>"
  using assms by (simp add: fire_def timeout_callback_def)

lemma fire_remove:
  assumes "timers d = [RemoveBox n]"
  shows "fire 0 d = showNextMessage
           (d\<lparr>timers := [], container := map_option (filter (\<lambda>x. box_id x \<noteq> n)) (container d),
              isShowingMessage := False\<rparr>)"
  using assms by (simp add: fire_def timeout_callback_def)

lemma showNextMessage_queue:
  "isShowingMessage (showNextMessage d) \<longleftrightarrow> messageQueue d \<noteq> []"
  "messageQueue (showNextMessage d) = tl (messageQueue d)"
  by (simp_all add: showNextMessage_def split: list.splits)

text \<open>Two timeouts later, either nothing is showing or one message fewer is waiting.\<close>

lemma two_fires:
  assumes "page_ok d"
  shows "isShowingMessage (fire 0 (fire 0 d)) \<longrightarrow>
           length (messageQueue (fire 0 (fire 0 d))) < length (messageQueue d)"
proof (cases "isShowingMessage d")
  case False
  with assms have "timers d = []" by (simp add: page_ok_def)
  then show ?thesis using False by (simp add: fire_idle)
next
  case True
  with assms obtain n where t: "timers d = [FadeOut n] \<or> timers d = [RemoveBox n]"
    by (auto simp: page_ok_def)
  then show ?thesis
  proof
    assume f: "timers d = [FadeOut n]"
    let ?d1 = "fire 0 d"
    from f have d1: "timers ?d1 = [RemoveBox n]" "messageQueue ?d1 = messageQueue d"
      by (simp_all add: fire_fade)
    from fire_remove[OF d1(1)] d1(2) show ?thesis
      by (cases "messageQueue d") (simp_all add: showNextMessage_queue)
  next
    assume r: "timers d = [RemoveBox n]"
    let ?d1 = "fire 0 d"
    have ok1: "page_ok ?d1" using assms by (rule page_ok_fire)
    from fire_remove[OF r] have q: "messageQueue ?d1 = tl (messageQueue d)"
      "isShowingMessage ?d1 \<longleftrightarrow> messageQueue d \<noteq> []"
      by (simp_all add: showNextMessage_queue)
    show ?thesis
    proof (cases "messageQueue d")
      case Nil
      with q(2) ok1 have "timers ?d1 = []" by (simp add: page_ok_def)
      then have "fire 0 ?d1 = ?d1" by (rule fire_idle)
      with q(2) Nil show ?thesis by simp
    next
      case (Cons m ms)
      with q(2) ok1 obtain k where "timers ?d1 = [FadeOut k] \<or> timers ?d1 = [RemoveBox k]"
        by (auto simp: page_ok_def)
      moreover have "timers ?d1 \<noteq> [RemoveBox k]"
        using fire_remove[OF r] Cons by (simp add: showNextMessage_def)
      ultimately have "timers ?d1 = [FadeOut k]" by simp
      then have "messageQueue (fire 0 ?d1) = messageQueue ?d1" by (simp add: fire_fade)
      with q(1) Cons show ?thesis by simp
    qed
  qed
qed

lemma run_fires_Suc:
  "page_run (replicate (2 * Suc n) (Fire 0)) d = page_run (replicate (2 * n) (Fire 0)) (fire 0 (fire 0 d))"
proof -
  have "replicate (2 * Suc n) (Fire 0) = Fire 0 # Fire 0 # replicate (2 * n) (Fire 0)"
    by simp
  then show ?thesis by (simp add: page_run_def)
qed

lemma drain:
  assumes "page_ok d" and "length (messageQueue d) \<le> n"
  shows "\<not> isShowingMessage (page_run (replicate (2 * Suc n) (Fire 0)) d)"
  using assms
proof (induction n arbitrary: d)
  case 0
  have "page_run (replicate (2 * Suc 0) (Fire 0)) d = fire 0 (fire 0 d)"
    by (simp only: run_fires_Suc) (simp add: page_run_def)
  moreover from two_fires[OF "0.prems"(1)] "0.prems"(2) have "\<not> isShowingMessage (fire 0 (fire 0 d))"
    by simp
  ultimately show ?case by simp
next
  case (Suc n)
  let ?d2 = "fire 0 (fire 0 d)"
  have ok2: "page_ok ?d2" using Suc.prems(1) by (simp add: page_ok_fire)
  have "length (messageQueue ?d2) \<le> n"
  proof (cases "isShowingMessage ?d2")
    case True
    with two_fires[OF Suc.prems(1)] Suc.prems(2) show ?thesis by simp
  next
    case False
    with ok2 show ?thesis by (simp add: page_ok_def)
  qed
  from Suc.IH[OF ok2 this]
  have fin: "\<not> isShowingMessage (page_run (replicate (2 * Suc n) (Fire 0)) ?d2)" .
  show ?case unfolding run_fires_Suc[of "Suc n"] by (rule fin)
qed


lemma show_flag_run: "SHOW_NOTIFICATIONS (page_run evs d) = SHOW_NOTIFICATIONS d"
  by (induction evs arbitrary: d) (simp_all add: page_run_def)

lemma published_fires: "published (replicate n (Fire k)) = []"
  by (induction n) (simp_all add: published_def)

lemma idle_publish:
  assumes "page_ok d" and "SHOW_NOTIFICATIONS d" and "\<not> isShowingMessage d"
  shows "children (notifyUser msg t d) = [box_of (next_box d) (msg, t)]"
    and "shown (notifyUser msg t d) = shown d @ [(msg, t)]"
  using assms
  by (simp_all add: page_ok_def notifyUser_def showNextMessage_def children_def box_of_def Let_def)

lemma busy_step:
  assumes "page_ok d" and "SHOW_NOTIFICATIONS d" and "isShowingMessage d"
    and "shown (page_step ev d) \<noteq> shown d"
  shows "ev = Fire 0 \<and> timers d = [RemoveBox (box_id (hd (children d)))]"
proof (cases ev)
  case (Publish msg t)
  with assms show ?thesis by (simp add: notifyUser_def Let_def)
next
  case (Fire k)
  show ?thesis
  proof (cases "k < length (timers d)")
    case False
    with Fire assms(4) show ?thesis by (simp add: fire_def)
  next
    case True
    from assms(1,3) have t: "timers d = [FadeOut (box_id (hd (children d)))]
        \<or> timers d = [RemoveBox (box_id (hd (children d)))]"
      by (simp add: page_ok_def)
    with True have k: "k = 0" by auto
    from t show ?thesis
    proof
      assume "timers d = [FadeOut (box_id (hd (children d)))]"
      with k Fire assms(4) show ?thesis by (simp add: fire_fade)
    next
      assume "timers d = [RemoveBox (box_id (hd (children d)))]"
      with k Fire show ?thesis by simp
    qed
  qed
qed

text \<open>
  C9. With notifications enabled, after any sequence of calls of \<^verbatim>\<open>notifyUser\<close> and
  expiring timeouts: at most one box is in the container; the messages shown so far,
  followed by the waiting ones, are the published messages in publish order; and once the
  pending timeouts have each expired (two per message), every published message has been
  shown, once and in publish order, and nothing is left showing or waiting. A publish
  while nothing is showing appends the box of the message at once; a publish while a
  message is showing only appends to the queue; and while a message is showing, the next
  one begins to show only in the callback of the second timeout of the current box.
\<close>

theorem every_notice_is_shown_once_in_order:
  "let d = page_run evs (page_init True);
       d' = page_run (replicate (2 * Suc (length (messageQueue d))) (Fire 0)) d
   in length (children d) \<le> 1
      \<and> shown d @ messageQueue d = published evs
      \<and> shown d' = published evs \<and> messageQueue d' = [] \<and> children d' = []
      \<and> \<not> isShowingMessage d'
      \<and> (\<not> isShowingMessage d \<longrightarrow>
            children (notifyUser msg t d) = [box_of (next_box d) (msg, t)]
            \<and> shown (notifyUser msg t d) = shown d @ [(msg, t)])
      \<and> (isShowingMessage d \<longrightarrow>
            notifyUser msg t d = d\<lparr>messageQueue := messageQueue d @ [(msg, t)]\<rparr>)
      \<and> (isShowingMessage d \<and> shown (page_step ev d) \<noteq> shown d \<longrightarrow>
            ev = Fire 0 \<and> timers d = [RemoveBox (box_id (hd (children d)))])"
proof -
  define d where "d = page_run evs (page_init True)"
  define d' where "d' = page_run (replicate (2 * Suc (length (messageQueue d))) (Fire 0)) d"
  have ok: "page_ok d" unfolding d_def by (rule page_ok_run[OF page_ok_init])
  have flag: "SHOW_NOTIFICATIONS d" by (simp add: d_def show_flag_run page_init_def)
  have n: "notified d = published evs"
    using notified_run[of "page_init True" evs]
    by (simp add: d_def page_init_def notified_def)
  have one: "length (children d) \<le> 1" using ok by (simp add: page_ok_def split: if_splits)
  have ok': "page_ok d'" unfolding d'_def using ok by (rule page_ok_run)
  have idle': "\<not> isShowingMessage d'" unfolding d'_def using ok by (rule drain) simp
  with ok' have q': "messageQueue d' = []" "children d' = []" by (simp_all add: page_ok_def)
  have "notified d' = notified d @ published (replicate (2 * Suc (length (messageQueue d))) (Fire 0))"
    unfolding d'_def using flag by (rule notified_run)
  then have "notified d' = notified d" by (simp only: published_fires append_Nil2)
  with q'(1) n have s': "shown d' = published evs" by (simp add: notified_def)
  have busy: "notifyUser msg t d = d\<lparr>messageQueue := messageQueue d @ [(msg, t)]\<rparr>"
    if "isShowingMessage d"
    using that flag by (simp add: notifyUser_def Let_def)
  have next_one: "ev = Fire 0 \<and> timers d = [RemoveBox (box_id (hd (children d)))]"
    if "isShowingMessage d \<and> shown (page_step ev d) \<noteq> shown d"
    using busy_step[OF ok flag, of ev] that by blast
  show ?thesis
    unfolding Let_def d_def[symmetric] d'_def[symmetric]
    using one n s' q' idle' idle_publish[OF ok flag] busy next_one
    by (simp add: notified_def)
qed


theorem every_notice_is_shown_once_in_order_witness:
  "\<not> isShowingMessage (page_run [] (page_init True))
   \<and> children (notifyUser OfflineLoaded Success (page_run [] (page_init True)))
       = [box_of 0 (OfflineLoaded, Success)]
   \<and> isShowingMessage (page_run two_published (page_init True))
   \<and> shown (page_step (Fire 0) (page_run two_published (page_init True)))
       \<noteq> shown (page_run two_published (page_init True))
   \<and> timers (page_run two_published (page_init True)) = [RemoveBox 0]
   \<and> notifyUser RegisterFailed Error (page_run two_published (page_init True))
       = (page_run two_published (page_init True))
           \<lparr>messageQueue := [(SyncedTo ''POST'' ''/orders'', Success), (RegisterFailed, Error)]\<rparr>
   \<and> shown (page_run (replicate 4 (Fire 0)) (page_run two_published (page_init True)))
       = [(OfflineLoaded, Success), (SyncedTo ''POST'' ''/orders'', Success)]"
proof -
  have e: "page_run [] (page_init True) = page_init True" by (simp add: page_run_def)
  have d: "page_run two_published (page_init True) =
      \<lparr>SHOW_NOTIFICATIONS = True, messageQueue = [(SyncedTo ''POST'' ''/orders'', Success)],
       isShowingMessage = True,
       container = Some [(box_of 0 (OfflineLoaded, Success))\<lparr>opacity := 0\<rparr>],
       timers = [RemoveBox 0], next_box = 1, shown = [(OfflineLoaded, Success)]\<rparr>"
    by (simp add: two_published_def page_run_def page_init_def notifyUser_def showNextMessage_def
        fire_def timeout_callback_def children_def box_of_def Let_def)
  have p: "published two_published = [(OfflineLoaded, Success), (SyncedTo ''POST'' ''/orders'', Success)]"
    by (simp add: two_published_def published_def)
  have s: "shown (page_step (Fire 0) (page_run two_published (page_init True)))
       \<noteq> shown (page_run two_published (page_init True))"
    unfolding d by (simp add: fire_def timeout_callback_def showNextMessage_def)
  have four: "2 * Suc (length (messageQueue (page_run two_published (page_init True)))) = 4"
    unfolding d by simp
  note t1 = every_notice_is_shown_once_in_order[of "[]" OfflineLoaded Success "Fire 0"]
  note t2 = every_notice_is_shown_once_in_order[of two_published RegisterFailed Error "Fire 0"]
  from t1 have "children (notifyUser OfflineLoaded Success (page_run [] (page_init True)))
       = [box_of 0 (OfflineLoaded, Success)]"
    unfolding Let_def e by (simp add: page_init_def)
  moreover from t2 s have "timers (page_run two_published (page_init True)) = [RemoveBox 0]"
    unfolding Let_def by (simp add: d children_def box_of_def)
  moreover from t2 have "notifyUser RegisterFailed Error (page_run two_published (page_init True))
       = (page_run two_published (page_init True))
           \<lparr>messageQueue := [(SyncedTo ''POST'' ''/orders'', Success), (RegisterFailed, Error)]\<rparr>"
    unfolding Let_def by (simp add: d)
  moreover from t2 have "shown (page_run (replicate 4 (Fire 0)) (page_run two_published (page_init True)))
       = [(OfflineLoaded, Success), (SyncedTo ''POST'' ''/orders'', Success)]"
    unfolding Let_def four p by blast
  moreover have "\<not> isShowingMessage (page_run [] (page_init True))"
    unfolding e by (simp add: page_init_def)
  moreover have "isShowingMessage (page_run two_published (page_init True))"
    by (simp add: d)
  ultimately show ?thesis using s by blast
qed

text \<open>
  With \<^verbatim>\<open>showNotifications: false\<close> in the configuration, a published message is dropped:
  four timeouts later nothing has been shown and no box is in the container.
\<close>

theorem disabled_notifications_show_nothing:
  "published [Publish OfflineLoaded Success] = [(OfflineLoaded, Success)]
   \<and> shown (page_run [Publish OfflineLoaded Success, Fire 0, Fire 0, Fire 0, Fire 0] (page_init False)) = []
   \<and> children (page_run [Publish OfflineLoaded Success, Fire 0, Fire 0, Fire 0, Fire 0] (page_init False)) = []
   \<and> messageQueue (page_run [Publish OfflineLoaded Success, Fire 0, Fire 0, Fire 0, Fire 0] (page_init False)) = []"
  by (simp add: published_def page_run_def page_init_def notifyUser_def fire_def children_def)


subsection \<open>Triggers and passes\<close>

text \<open>
  C1. Nothing guards the start of a pass. Whatever passes are in progress, a
  \<^verbatim>\<open>SYNC_OFFLINE_REQUESTS\<close> message to the service worker, an \<^verbatim>\<open>online\<close> event on a
  controlled page, and a \<^verbatim>\<open>SYNC_OFFLINE_REQUESTS\<close> message to the page each start one
  more pass and leave the passes in progress as they are; and when the database is
  available, the first step of the new pass takes its own snapshot of the whole store.
\<close>

theorem every_trigger_starts_a_pass:
  "step (SwMessage (Some SYNC_OFFLINE_REQUESTS)) w = w\<lparr>passes := passes w @ [(Worker, Starting)]\<rparr>
   \<and> step (Online True) w = w\<lparr>passes := passes w @ [(Worker, Starting)]\<rparr>
   \<and> step (PageMessage (Some SYNC_OFFLINE_REQUESTS)) w = w\<lparr>passes := passes w @ [(Page, Starting)]\<rparr>
   \<and> (available (db w) \<longrightarrow>
        step (Advance (length (passes w)) e) (step (SwMessage (Some SYNC_OFFLINE_REQUESTS)) w)
          = w\<lparr>passes := passes w @ [(Worker, Replaying (clock e) (recs (db w)))]\<rparr>)"
  by (simp add: sw_on_message_def on_online_def page_on_message_def advance_def
      getAllRequests_def openDB_def)

theorem every_trigger_starts_a_pass_witness:
  "available (db (run pass_running (world_init True)))
   \<and> passes (run pass_running (world_init True))
       = [(Worker, Awaiting 1000 1 (1, requestData_of 1000 order_request) [])]
   \<and> passes (step (Advance 1 offline)
        (step (SwMessage (Some SYNC_OFFLINE_REQUESTS)) (run pass_running (world_init True))))
       = [(Worker, Awaiting 1000 1 (1, requestData_of 1000 order_request) []),
          (Worker, Replaying 1000 [(1, requestData_of 1000 order_request)])]"
proof -
  have p: "passes (run pass_running (world_init True))
       = [(Worker, Awaiting 1000 1 (1, requestData_of 1000 order_request) [])]"
    by code_simp
  have a: "available (db (run pass_running (world_init True)))"
    by code_simp
  have r: "recs (db (run pass_running (world_init True))) = [(1, requestData_of 1000 order_request)]"
    by code_simp
  have c: "clock offline = 1000" by (simp add: offline_def)
  from every_trigger_starts_a_pass[of "run pass_running (world_init True)" offline] a
  have "step (Advance (length (passes (run pass_running (world_init True)))) offline)
          (step (SwMessage (Some SYNC_OFFLINE_REQUESTS)) (run pass_running (world_init True)))
        = (run pass_running (world_init True))
            \<lparr>passes := passes (run pass_running (world_init True))
               @ [(Worker, Replaying (clock offline) (recs (db (run pass_running (world_init True)))))]\<rparr>"
    by blast
  then have "passes (step (Advance 1 offline)
        (step (SwMessage (Some SYNC_OFFLINE_REQUESTS)) (run pass_running (world_init True))))
       = [(Worker, Awaiting 1000 1 (1, requestData_of 1000 order_request) []),
          (Worker, Replaying 1000 [(1, requestData_of 1000 order_request)])]"
    unfolding p r c by simp
  with p a show ?thesis by blast
qed

text \<open>
  A pass is waiting for the \<^verbatim>\<open>fetch\<close> of the queued \<^verbatim>\<open>POST /orders\<close> when a second
  sync message arrives: a second pass starts, and it sends the same stored request again.
\<close>

theorem second_trigger_starts_second_pass:
  "passes (run pass_running (world_init True))
     = [(Worker, Awaiting 1000 1 (1, requestData_of 1000 order_request) [])]
   \<and> passes (step (SwMessage (Some SYNC_OFFLINE_REQUESTS)) (run pass_running (world_init True)))
     = [(Worker, Awaiting 1000 1 (1, requestData_of 1000 order_request) []), (Worker, Starting)]
   \<and> calls (run pass_running (world_init True))
     = [Intercepted order_request, call_of Worker (1, requestData_of 1000 order_request)]
   \<and> calls (run (pass_running @ second_pass) (world_init True))
     = [Intercepted order_request, call_of Worker (1, requestData_of 1000 order_request),
        call_of Worker (1, requestData_of 1000 order_request)]"
  by code_simp


subsection \<open>What an event does to the store\<close>

lemma store_get_add:
  assumes "idb_ok s"
  shows "store_get k (store_add d s) = (if k = keygen s then Some d else store_get k s)"
proof -
  from assms have "keygen s \<notin> fst ` set (recs s)" by (auto simp: idb_ok_def list_all_iff)
  then have "store_get (keygen s) s = None" by (simp add: store_get_def map_of_eq_None_iff)
  then show ?thesis
    by (auto simp: store_get_def store_add_recs[OF assms] map_add_def split: option.splits)
qed

lemma store_change_ok:
  assumes "store_change s s'" and "idb_ok s" and "queue_ok s"
  shows "idb_ok s' \<and> queue_ok s'"
proof -
  have f: "fst (set_rc k n x) = fst x" for k n x by (simp add: set_rc_def)
  have m: "map (fst \<circ> set_rc k n) xs = map fst xs" for k n xs by (simp add: f)
  from assms(1) consider
    (same) "recs s' = recs s" "keygen s' = keygen s"
    | (del) k where "s' = store_delete k s"
    | (upd) k n where "n \<le> MAX_RETRIES" "s' = s\<lparr>recs := map (set_rc k n) (recs s)\<rparr>"
    | (add) d where "retryCount d = 0" "s' = store_add d s"
    by (auto simp: store_change_def)
  then show ?thesis
  proof cases
    case same
    with assms(2,3) show ?thesis by (simp add: idb_ok_def queue_ok_def)
  next
    case del
    from assms(2) have "idb_ok (store_delete k s)" by (rule idb_ok_store_delete)
    moreover from assms(3) have "queue_ok (store_delete k s)"
      by (simp add: queue_ok_def store_delete_def list_all_iff)
    ultimately show ?thesis using del by simp
  next
    case upd
    with assms(2,3) show ?thesis
      by (auto simp: idb_ok_def queue_ok_def m list_all_iff set_rc_def)
  next
    case add
    from assms(2) have "idb_ok (store_add d s)" by (rule idb_ok_store_add)
    moreover from assms(2,3) add(1) have "queue_ok (store_add d s)"
      by (simp add: queue_ok_def store_add_recs)
    ultimately show ?thesis using add by simp
  qed
qed

lemma store_change_fields:
  assumes "store_change s s'" and "idb_ok s"
    and "store_get k s = Some d" and "store_get k s' = Some d'"
  shows "d'\<lparr>retryCount := retryCount d\<rparr> = d"
proof -
  from assms(1) consider
    (same) "recs s' = recs s" "keygen s' = keygen s"
    | (del) j where "s' = store_delete j s"
    | (upd) j n where "n \<le> MAX_RETRIES" "s' = s\<lparr>recs := map (set_rc j n) (recs s)\<rparr>"
    | (add) d0 where "retryCount d0 = 0" "s' = store_add d0 s"
    by (auto simp: store_change_def)
  then show ?thesis
  proof cases
    case same
    with assms(3,4) show ?thesis by (simp add: store_get_def)
  next
    case del
    with assms(3,4) show ?thesis
      by (simp add: store_get_def store_delete_def map_of_filter_key split: if_splits)
  next
    case upd
    with assms(3,4) show ?thesis
      by (auto simp: store_get_def map_of_set_rc split: if_splits)
  next
    case add
    from assms(2,3) have "k \<noteq> keygen s"
      by (auto simp: idb_ok_def list_all_iff store_get_def dest!: map_of_SomeD)
    with add assms(2,3,4) show ?thesis by (simp add: store_get_add)
  qed
qed

lemma refresh_cache_frame:
  "db (refresh_cache e w) = db w" "passes (refresh_cache e w) = passes w"
proof -
  have one: "db (refresh_one e k u) = db u \<and> passes (refresh_one e k u) = passes u" for k u
    by (simp add: refresh_one_def sendMessageToClients_def Let_def split: option.splits)
  have "db (foldl (\<lambda>s request. refresh_one e request s) u ks) = db u
      \<and> passes (foldl (\<lambda>s request. refresh_one e request s) u ks) = passes u" for ks u
    by (induction ks arbitrary: u) (simp_all add: one)
  then show "db (refresh_cache e w) = db w" "passes (refresh_cache e w) = passes w"
    by (simp_all add: refresh_cache_def Let_def)
qed

lemma deleteRequest_Inr: "deleteRequest k s = Inr s' \<Longrightarrow> s' = store_delete k s"
  by (simp add: deleteRequest_def openDB_def split: if_splits)

lemma updateRequestRetryCount_Inr:
  assumes "updateRequestRetryCount k n s = Inr s'" and "idb_ok s"
  shows "s' = s\<lparr>recs := map (set_rc k n) (recs s)\<rparr>"
proof -
  from assms(1) have "available s"
    by (simp add: updateRequestRetryCount_def openDB_def split: if_splits)
  from updateRequestRetryCount_recs[OF this assms(2), of k n] assms(1) show ?thesis by simp
qed

lemma settle_entry_db:
  assumes "idb_ok (db w)" and "settle_entry v r outcome w = Some w'"
  shows "(db w' = store_delete (fst r) (db w)
          \<or> db w' = (db w)\<lparr>recs := map (set_rc (fst r) (retryCount (snd r) + 1)) (recs (db w))\<rparr>)
         \<and> passes w' = passes w"
  using assms
  by (auto simp: settle_entry_def catch_block_def on_synced_frame on_not_ok_frame on_caught_frame
      split: option.splits sum.splits if_splits
      dest!: deleteRequest_Inr updateRequestRetryCount_Inr)


lemma store_change_same: "recs s' = recs s \<Longrightarrow> keygen s' = keygen s \<Longrightarrow> store_change s s'"
  by (simp add: store_change_def)

lemma store_change_refl: "store_change s s"
  by (simp add: store_change_def)

lemma store_change_delete: "store_change s (store_delete k s)"
  by (auto simp: store_change_def)

lemma store_change_set_rc:
  "n \<le> MAX_RETRIES \<Longrightarrow> store_change s (s\<lparr>recs := map (set_rc k n) (recs s)\<rparr>)"
  by (auto simp: store_change_def)

lemma store_change_add: "retryCount d = 0 \<Longrightarrow> store_change s (store_add d s)"
  by (auto simp: store_change_def)

lemma pass_step_change:
  assumes "idb_ok (db w)" and "pass_ok (v, ph)" and "pass_step e v ph w = (ph', w')"
  shows "store_change (db w) (db w') \<and> passes w' = passes w
         \<and> (case ph' of None \<Rightarrow> True | Some p \<Rightarrow> pass_ok (v, p))"
proof (cases ph)
  case Starting
  with assms(3) show ?thesis
    by (auto simp: store_change_refl split: sum.splits)
next
  case (Replaying now rs)
  show ?thesis
  proof (cases rs)
    case Nil
    with Replaying assms(3) show ?thesis
      by (cases v) (auto simp: store_change_refl)
  next
    case (Cons r rs')
    with Replaying assms(3) show ?thesis
      by (auto simp: begin_entry_def store_change_refl store_change_delete
          split: if_splits sum.splits dest!: deleteRequest_Inr)
  qed
next
  case (Awaiting now i r rs)
  with assms(2) have "retryCount (snd r) + 1 \<le> MAX_RETRIES"
    by (simp add: expired_iff)
  then have c: "store_change (db w)
      ((db w)\<lparr>recs := map (set_rc (fst r) (retryCount (snd r) + 1)) (recs (db w))\<rparr>)"
    by (rule store_change_set_rc)
  show ?thesis
  proof (cases "settle_entry v r (net e i) w")
    case None
    with Awaiting assms(3) show ?thesis by (auto simp: store_change_refl)
  next
    case (Some u)
    from settle_entry_db[OF assms(1) Some] c have "store_change (db w) (db u) \<and> passes u = passes w"
      by (auto simp: store_change_delete)
    with Awaiting Some assms(3) show ?thesis by auto
  qed
next
  case Refreshing
  with assms(3) show ?thesis
    by (auto simp: refresh_cache_frame store_change_refl)
qed

lemma fetch_handler_change:
  "store_change (db w) (db (snd (fetch_handler e request w)))
   \<and> passes (snd (fetch_handler e request w)) = passes w"
proof -
  have "retryCount (requestData_of (clock e) request) = 0" by (simp add: requestData_of_def)
  then have "store_change (db w) (store_add (requestData_of (clock e) request) (db w))"
    by (rule store_change_add)
  then show ?thesis
    by (auto simp: fetch_handler_def fetch_read_def fetch_write_def sendMessageToClients_def
        saveRequest_def openDB_def store_change_refl Let_def split: option.splits sum.splits)
qed

lemma list_all_pass_ok_drop:
  "list_all pass_ok ps \<Longrightarrow> list_all pass_ok (take i ps) \<and> list_all pass_ok (drop j ps)"
  by (auto simp: list_all_iff dest: in_set_takeD in_set_dropD)

lemma list_all_pass_ok_update:
  "list_all pass_ok ps \<Longrightarrow> pass_ok p \<Longrightarrow> list_all pass_ok (ps[i := p])"
  by (auto simp: list_all_iff dest!: set_update_subset_insert[THEN subsetD])

lemma advance_change:
  assumes "idb_ok (db w)" and "list_all pass_ok (passes w)"
  shows "store_change (db w) (db (advance i e w)) \<and> list_all pass_ok (passes (advance i e w))"
proof (cases "i < length (passes w)")
  case False
  with assms(2) show ?thesis by (simp add: advance_def store_change_refl)
next
  case True
  obtain v ph where p: "passes w ! i = (v, ph)" by (cases "passes w ! i")
  with True assms(2) have ok: "pass_ok (v, ph)"
    by (metis list_all_length)
  obtain ph' w' where s: "pass_step e v ph w = (ph', w')" by (cases "pass_step e v ph w")
  from pass_step_change[OF assms(1) ok s] have
    c: "store_change (db w) (db w')" "passes w' = passes w"
      "case ph' of None \<Rightarrow> True | Some q \<Rightarrow> pass_ok (v, q)"
    by simp_all
  show ?thesis
  proof (cases ph')
    case None
    with True p s c assms(2) show ?thesis
      by (simp add: advance_def list_all_pass_ok_drop)
  next
    case (Some q)
    with c(3) have "pass_ok (v, q)" by simp
    with Some True p s c assms(2) show ?thesis
      by (simp add: advance_def list_all_pass_ok_update)
  qed
qed

lemma step_change:
  assumes "world_ok w"
  shows "store_change (db w) (db (step ev w)) \<and> list_all pass_ok (passes (step ev w))"
proof (cases ev)
  case (SwMessage data)
  with assms show ?thesis
    by (auto simp: world_ok_def sw_on_message_def store_change_refl split: option.splits)
next
  case (PageMessage data)
  with assms show ?thesis
    by (auto simp: world_ok_def page_on_message_def store_change_refl
        split: option.splits message.splits)
next
  case (Online controller)
  with assms show ?thesis
    by (auto simp: world_ok_def on_online_def sw_on_message_def store_change_refl)
next
  case (FetchEvent e request)
  with assms fetch_handler_change[of w e request] show ?thesis
    by (simp add: world_ok_def)
next
  case (Advance i e)
  with assms advance_change[of w i e] show ?thesis
    by (simp add: world_ok_def)
next
  case (Timeout k)
  with assms show ?thesis by (simp add: world_ok_def store_change_refl)
next
  case (Storage b)
  with assms show ?thesis by (simp add: world_ok_def store_change_same)
qed

lemma world_ok_step: "world_ok w \<Longrightarrow> world_ok (step ev w)"
  using step_change[of w ev] store_change_ok[of "db w" "db (step ev w)"]
  by (simp add: world_ok_def)

lemma world_ok_run: "world_ok w \<Longrightarrow> world_ok (run evs w)"
  by (induction evs arbitrary: w) (simp_all add: run_def world_ok_step)

lemma world_ok_init: "world_ok (world_init flag)"
  by (simp add: world_ok_def world_init_def idb_ok_def queue_ok_def)


subsection \<open>A pass that runs alone\<close>

lemma replay_monotone:
  assumes "available (db w)" and "idb_ok (db w)" and "distinct (map fst rs)"
    and "\<forall>r\<in>set rs. \<forall>x. store_get (fst r) (db w) = Some x \<longrightarrow> retryCount (snd r) = retryCount x"
    and "replay e v now rs w = Some w'"
    and "store_get k (db w) = Some d" and "store_get k (db w') = Some d'"
  shows "d' = d \<or> (d' = d\<lparr>retryCount := retryCount d + 1\<rparr> \<and> retryCount d < MAX_RETRIES)"
  using assms
proof (induction rs arbitrary: w)
  case Nil
  then show ?case by simp
next
  case (Cons r rs)
  from replay_entry_effect[OF Cons.prems(1,2), of e v now r] obtain w1 where
    w1: "replay_entry e v now r w = Some w1"
      "db w1 = (db w)\<lparr>recs := entry_recs v now (net e (length (calls w))) r (recs (db w))\<rparr>"
    by blast
  have a1: "available (db w1)" using w1(2) Cons.prems(1) by simp
  have i1: "idb_ok (db w1)" using w1(2) idb_ok_entry_recs[OF Cons.prems(2)] by simp
  from Cons.prems(5) w1(1) have rest: "replay e v now rs w1 = Some w'" by simp
  from Cons.prems(3) have nr: "fst r \<notin> fst ` set rs" and dr: "distinct (map fst rs)" by auto
  show ?case
  proof (cases "k = fst r")
    case True
    from replay_frame[OF a1 i1 nr rest] True Cons.prems(7)
    have g1: "store_get k (db w1) = Some d'" by simp
    from Cons.prems(4,6) True have rc: "retryCount (snd r) = retryCount d" by simp
    from g1 w1(2) True Cons.prems(6) have
      "\<not> expired v now (snd r) \<and> d' = d\<lparr>retryCount := retryCount (snd r) + 1\<rparr>"
      by (auto simp: store_get_def entry_recs_def map_of_filter_key map_of_set_rc split: if_splits)
    with rc show ?thesis by (auto simp: expired_iff)
  next
    case False
    from w1(2) have same: "store_get j (db w1) = store_get j (db w)" if "j \<noteq> fst r" for j
      using that by (simp add: store_get_def map_of_entry_recs_other)
    from False Cons.prems(6) have g1: "store_get k (db w1) = Some d" by (simp add: same)
    have snap: "\<forall>q\<in>set rs. \<forall>x. store_get (fst q) (db w1) = Some x \<longrightarrow> retryCount (snd q) = retryCount x"
    proof (intro ballI allI impI)
      fix q x assume q: "q \<in> set rs" and x: "store_get (fst q) (db w1) = Some x"
      from q nr have "fst q \<noteq> fst r" by (metis imageI)
      with x have "store_get (fst q) (db w) = Some x" by (simp add: same)
      with Cons.prems(4) q show "retryCount (snd q) = retryCount x" by simp
    qed
    from Cons.IH[OF a1 i1 dr snap rest g1 Cons.prems(7)] show ?thesis .
  qed
qed

lemma sync_queue_monotone:
  assumes "available (db w)" and "idb_ok (db w)" and "sync_queue e v w = Some w'"
    and "store_get k (db w) = Some d" and "store_get k (db w') = Some d'"
  shows "d' = d \<or> (d' = d\<lparr>retryCount := retryCount d + 1\<rparr> \<and> retryCount d < MAX_RETRIES)"
proof -
  from assms(2) have dist: "distinct (map fst (recs (db w)))"
    by (simp add: idb_ok_def strict_sorted_iff)
  have snap: "\<forall>r\<in>set (recs (db w)). \<forall>x. store_get (fst r) (db w) = Some x \<longrightarrow> retryCount (snd r) = retryCount x"
    using stored_lookup[OF assms(2)] by auto
  from assms(1,3) have "replay e v (clock e) (recs (db w)) w = Some w'"
    by (simp add: sync_queue_def getAllRequests_def openDB_def)
  from replay_monotone[OF assms(1,2) dist snap this assms(4,5)] show ?thesis .
qed

lemma other_events_keep_records:
  assumes "world_ok w" and "\<not> is_advance ev"
    and "store_get k (db w) = Some d" and "store_get k (db (step ev w)) = Some d'"
  shows "d' = d"
proof -
  from assms(1) have ok: "idb_ok (db w)" by (simp add: world_ok_def)
  have "recs (db (step ev w)) = recs (db w) \<or> (\<exists>d0. db (step ev w) = store_add d0 (db w))"
  proof (cases ev)
    case (FetchEvent e request)
    then show ?thesis
      by (auto simp: fetch_handler_def fetch_read_def fetch_write_def sendMessageToClients_def
          saveRequest_def openDB_def Let_def split: option.splits sum.splits)
  next
    case (Advance i e)
    with assms(2) show ?thesis by simp
  qed (auto simp: sw_on_message_def page_on_message_def on_online_def
        split: option.splits message.splits)
  then show ?thesis
  proof
    assume "recs (db (step ev w)) = recs (db w)"
    with assms(3,4) show ?thesis by (simp add: store_get_def)
  next
    assume "\<exists>d0. db (step ev w) = store_add d0 (db w)"
    then obtain d0 where a: "db (step ev w) = store_add d0 (db w)" ..
    from ok assms(3) have "k \<noteq> keygen (db w)"
      by (auto simp: idb_ok_def list_all_iff store_get_def dest!: map_of_SomeD)
    with a assms(3,4) ok show ?thesis by (simp add: store_get_add)
  qed
qed


subsection \<open>The invariants of the queue\<close>

text \<open>
  C8. In a world whose store is well formed, whose entries have retry counts of at most
  \<open>MAX_RETRIES\<close> and whose waiting passes have found their entry not expired, every
  event leads to such a world again; an entry that is in the store before and after an
  event has kept its timestamp and every other field but the retry count, and its retry
  count is at most \<open>MAX_RETRIES\<close>; an event other than the continuation of a pass leaves
  the entry as it was; and a pass run from its start to its end with nothing in between
  leaves the entry as it was or adds one to its retry count. Every world reached from the
  initial one is such a world.
\<close>

theorem queue_invariants:
  assumes "world_ok w"
  shows "world_ok (step ev w)
       \<and> (store_get k (db w) = Some d \<and> store_get k (db (step ev w)) = Some d' \<longrightarrow>
            timestamp d' = timestamp d \<and> d'\<lparr>retryCount := retryCount d\<rparr> = d
            \<and> retryCount d' \<le> MAX_RETRIES)
       \<and> (\<not> is_advance ev \<and> store_get k (db w) = Some d
            \<and> store_get k (db (step ev w)) = Some d' \<longrightarrow> d' = d)
       \<and> (available (db w) \<and> sync_queue e v w = Some w' \<and> store_get j (db w) = Some x
            \<and> store_get j (db w') = Some x' \<longrightarrow>
            retryCount x \<le> retryCount x' \<and> retryCount x' \<le> MAX_RETRIES
            \<and> timestamp x' = timestamp x \<and> x'\<lparr>retryCount := retryCount x\<rparr> = x)
       \<and> world_ok (run evs (world_init flag))"
proof (intro conjI impI)
  show ok': "world_ok (step ev w)" using assms by (rule world_ok_step)
  show "world_ok (run evs (world_init flag))" using world_ok_init by (rule world_ok_run)
  from assms have i: "idb_ok (db w)" by (simp add: world_ok_def)
  {
    assume a: "store_get k (db w) = Some d \<and> store_get k (db (step ev w)) = Some d'"
    from step_change[OF assms, of ev] have c: "store_change (db w) (db (step ev w))" by simp
    from a show f: "d'\<lparr>retryCount := retryCount d\<rparr> = d"
      by (intro store_change_fields[OF c i, of k]) simp_all
    then have "timestamp (d'\<lparr>retryCount := retryCount d\<rparr>) = timestamp d" by simp
    then show "timestamp d' = timestamp d" by simp
    from a have "(k, d') \<in> set (recs (db (step ev w)))"
      by (simp add: store_get_def map_of_SomeD)
    with ok' show "retryCount d' \<le> MAX_RETRIES"
      by (auto simp: world_ok_def queue_ok_def list_all_iff)
  }
  {
    assume "\<not> is_advance ev \<and> store_get k (db w) = Some d
            \<and> store_get k (db (step ev w)) = Some d'"
    with other_events_keep_records[OF assms, of ev k d d'] show "d' = d" by simp
  }
  {
    assume a: "available (db w) \<and> sync_queue e v w = Some w' \<and> store_get j (db w) = Some x
            \<and> store_get j (db w') = Some x'"
    with sync_queue_monotone[OF _ i, of e v w' j x x']
    have m: "x' = x \<or> (x' = x\<lparr>retryCount := retryCount x + 1\<rparr> \<and> retryCount x < MAX_RETRIES)"
      by simp
    from a have "(j, x) \<in> set (recs (db w))" by (simp add: store_get_def map_of_SomeD)
    with assms have q: "retryCount x \<le> MAX_RETRIES"
      by (auto simp: world_ok_def queue_ok_def list_all_iff)
    from m show "retryCount x \<le> retryCount x'" by auto
    from m q show "retryCount x' \<le> MAX_RETRIES" by auto
    from m show "timestamp x' = timestamp x" by auto
    from m show "x'\<lparr>retryCount := retryCount x\<rparr> = x" by auto
  }
qed

theorem queue_invariants_witness:
  "world_ok (world_of one_order)
   \<and> \<not> is_advance (FetchEvent offline order_request)
   \<and> store_get 1 (db (world_of one_order)) = Some order_data
   \<and> store_get 1 (db (step (FetchEvent offline order_request) (world_of one_order))) = Some order_data
   \<and> available (db (world_of one_order))
   \<and> sync_queue offline Worker (world_of one_order) = Some one_retry
   \<and> store_get 1 (db one_retry) = Some (order_data\<lparr>retryCount := 1\<rparr>)
   \<and> world_ok (step (FetchEvent offline order_request) (world_of one_order))
   \<and> retryCount order_data \<le> retryCount (order_data\<lparr>retryCount := 1\<rparr>)
   \<and> retryCount (order_data\<lparr>retryCount := 1\<rparr>) \<le> MAX_RETRIES
   \<and> world_ok (run overlapping (world_init True))"
proof -
  have h: "world_ok (world_of one_order)" by code_simp
  have a: "store_get 1 (db (world_of one_order)) = Some order_data
      \<and> store_get 1 (db (step (FetchEvent offline order_request) (world_of one_order))) = Some order_data"
    by code_simp
  have n: "\<not> is_advance (FetchEvent offline order_request)" by simp
  have b: "available (db (world_of one_order))
      \<and> sync_queue offline Worker (world_of one_order) = Some one_retry
      \<and> store_get 1 (db (world_of one_order)) = Some order_data
      \<and> store_get 1 (db one_retry) = Some (order_data\<lparr>retryCount := 1\<rparr>)"
    by code_simp
  note t = queue_invariants[OF h, of "FetchEvent offline order_request" 1 order_data order_data
      offline Worker one_retry 1 order_data "order_data\<lparr>retryCount := 1\<rparr>" overlapping True]
  from t h a n b show ?thesis by blast
qed

text \<open>
  A pass reads the queued order with retry count 0 and waits for its \<^verbatim>\<open>fetch\<close>. Two
  more passes start and end meanwhile, each failing and counting a retry: the stored retry
  count is 2. Then the \<^verbatim>\<open>fetch\<close> of the first pass fails, and the pass writes the retry
  count of its snapshot plus one: the stored retry count is 1.
\<close>

theorem overlapping_passes_lower_a_retry_count:
  "world_ok (run overlapping (world_init True))
   \<and> passes (run overlapping (world_init True))
       = [(Worker, Awaiting 1000 1 (1, requestData_of 1000 order_request) [])]
   \<and> store_get 1 (db (run overlapping (world_init True)))
       = Some ((requestData_of 1000 order_request)\<lparr>retryCount := 2\<rparr>)
   \<and> store_get 1 (db (step (Advance 0 offline) (run overlapping (world_init True))))
       = Some ((requestData_of 1000 order_request)\<lparr>retryCount := 1\<rparr>)"
  by code_simp


subsection \<open>The loop as a sequence of continuations\<close>

lemma settle_entry_passes:
  "settle_entry v r outcome (w\<lparr>passes := ps\<rparr>)
     = map_option (\<lambda>u. u\<lparr>passes := ps\<rparr>) (settle_entry v r outcome w)"
  by (cases v)
    (auto simp: settle_entry_def catch_block_def sendMessageToClients_def
      split: option.splits sum.splits)

lemma replay_entry_passes:
  "replay_entry e v now r (w\<lparr>passes := ps\<rparr>)
     = map_option (\<lambda>u. u\<lparr>passes := ps\<rparr>) (replay_entry e v now r w)"
proof (cases "expired v now (snd r)")
  case True
  then show ?thesis
    by (simp add: replay_entry_def begin_entry_def split: sum.splits)
next
  case False
  let ?w0 = "w\<lparr>calls := calls w @ [Replayed (fst r) (fetch_of v (snd r))]\<rparr>"
  have swap: "(w\<lparr>passes := ps\<rparr>)\<lparr>calls := c\<rparr> = (w\<lparr>calls := c\<rparr>)\<lparr>passes := ps\<rparr>" for c
    by (cases w) simp
  from False have "replay_entry e v now r (w\<lparr>passes := ps\<rparr>)
      = settle_entry v r (net e (length (calls w)))
          ((w\<lparr>passes := ps\<rparr>)\<lparr>calls := calls w @ [Replayed (fst r) (fetch_of v (snd r))]\<rparr>)"
    by (simp add: replay_entry_def begin_entry_def)
  also have "\<dots> = settle_entry v r (net e (length (calls w))) (?w0\<lparr>passes := ps\<rparr>)"
    by (simp only: swap)
  also have "\<dots> = map_option (\<lambda>u. u\<lparr>passes := ps\<rparr>) (settle_entry v r (net e (length (calls w))) ?w0)"
    by (rule settle_entry_passes)
  also from False have "settle_entry v r (net e (length (calls w))) ?w0 = replay_entry e v now r w"
    by (simp add: replay_entry_def begin_entry_def)
  finally show ?thesis .
qed

lemma replay_passes:
  "replay e v now rs (w\<lparr>passes := ps\<rparr>) = map_option (\<lambda>u. u\<lparr>passes := ps\<rparr>) (replay e v now rs w)"
proof (induction rs arbitrary: w)
  case Nil
  then show ?case by simp
next
  case (Cons r rs)
  show ?case
  proof (cases "replay_entry e v now r w")
    case None
    then show ?thesis by (simp add: replay_entry_passes)
  next
    case (Some u)
    then show ?thesis by (simp add: replay_entry_passes Cons.IH)
  qed
qed

lemma run_Cons: "run (ev # evs) w = run evs (step ev w)"
  by (simp add: run_def)

lemma run_append: "run (xs @ ys) w = run ys (run xs w)"
  by (simp add: run_def)

text \<open>
  One entry of the snapshot: the continuations of the pass at position \<open>length ps\<close>, with
  no other event in between, do what the loop body does.
\<close>

lemma lone_entry:
  assumes "replay_entry e v now r w = Some w1"
    and "passes w = ps @ [(v, Replaying now (r # rs))]"
  shows "run (replicate (if expired v now (snd r) then 1 else 2) (Advance (length ps) e)) w
           = w1\<lparr>passes := ps @ [(v, Replaying now rs)]\<rparr>"
proof (cases "expired v now (snd r)")
  case True
  with assms(1) have b: "begin_entry v now r w = Skipped w1"
    by (auto simp: replay_entry_def begin_entry_def split: sum.splits)
  with True assms(2) show ?thesis
    by (simp add: run_def advance_def nth_append)
next
  case False
  let ?w0 = "w\<lparr>calls := calls w @ [Replayed (fst r) (fetch_of v (snd r))]\<rparr>"
  let ?i = "length (calls w)"
  from False have b: "begin_entry v now r w = Issued ?i ?w0"
    by (simp add: begin_entry_def)
  with assms(1) have s: "settle_entry v r (net e ?i) ?w0 = Some w1"
    by (simp add: replay_entry_def)
  have two: "replicate 2 (Advance (length ps) e) = [Advance (length ps) e, Advance (length ps) e]"
    by (simp add: numeral_2_eq_2)
  have first: "step (Advance (length ps) e) w = ?w0\<lparr>passes := ps @ [(v, Awaiting now ?i r rs)]\<rparr>"
    using b assms(2) by (simp add: advance_def nth_append)
  have "step (Advance (length ps) e) (?w0\<lparr>passes := ps @ [(v, Awaiting now ?i r rs)]\<rparr>)
          = w1\<lparr>passes := ps @ [(v, Replaying now rs)]\<rparr>"
    using s by (simp add: advance_def nth_append settle_entry_passes)
  with first False show ?thesis by (simp add: two run_def)
qed

lemma lone_replay:
  assumes "replay e v now rs w = Some w'" and "passes w = ps @ [(v, Replaying now rs)]"
  shows "run (replicate (lone_steps v now rs) (Advance (length ps) e)) w
           = w'\<lparr>passes := ps @ [(v, Replaying now [])]\<rparr>"
  using assms
proof (induction rs arbitrary: w w')
  case Nil
  then show ?case by (simp add: run_def)
next
  case (Cons r rs)
  from Cons.prems(1) obtain w1 where
    w1: "replay_entry e v now r w = Some w1" "replay e v now rs w1 = Some w'"
    by (auto split: option.splits)
  let ?n = "if expired v now (snd r) then 1 else 2 :: nat"
  let ?u = "w1\<lparr>passes := ps @ [(v, Replaying now rs)]\<rparr>"
  from lone_entry[OF w1(1) Cons.prems(2)]
  have entry: "run (replicate ?n (Advance (length ps) e)) w = ?u" .
  from w1(2) have "replay e v now rs ?u = Some (w'\<lparr>passes := ps @ [(v, Replaying now rs)]\<rparr>)"
    by (simp add: replay_passes)
  from Cons.IH[OF this] have rest:
    "run (replicate (lone_steps v now rs) (Advance (length ps) e)) ?u
       = w'\<lparr>passes := ps @ [(v, Replaying now [])]\<rparr>"
    by simp
  have "replicate (lone_steps v now (r # rs)) (Advance (length ps) e)
        = replicate ?n (Advance (length ps) e) @ replicate (lone_steps v now rs) (Advance (length ps) e)"
    by (simp add: replicate_add)
  with entry rest show ?case by (simp only: run_append)
qed

text \<open>
  A pass that is started and then continued with no other event in between does what
  \<open>sync_queue\<close> does, and is then at the end of its loop.
\<close>

lemma lone_pass:
  assumes "sync_queue e v w = Some w'" and "passes w = ps @ [(v, Starting)]"
  shows "run (replicate (Suc (lone_steps v (clock e) (recs (db w)))) (Advance (length ps) e)) w
           = w'\<lparr>passes := ps @ [(v, Replaying (clock e) [])]\<rparr>"
proof -
  from assms(1) have a: "getAllRequests (db w) = Inr (recs (db w))"
    and r: "replay e v (clock e) (recs (db w)) w = Some w'"
    by (auto simp: sync_queue_def getAllRequests_def openDB_def split: sum.splits if_splits)
  let ?u = "w\<lparr>passes := ps @ [(v, Replaying (clock e) (recs (db w)))]\<rparr>"
  from a assms(2) have first: "step (Advance (length ps) e) w = ?u"
    by (simp add: advance_def nth_append)
  from r have "replay e v (clock e) (recs (db ?u)) ?u
      = Some (w'\<lparr>passes := ps @ [(v, Replaying (clock e) (recs (db w)))]\<rparr>)"
    by (simp add: replay_passes)
  from lone_replay[OF this] have
    "run (replicate (lone_steps v (clock e) (recs (db w))) (Advance (length ps) e)) ?u
       = w'\<lparr>passes := ps @ [(v, Replaying (clock e) [])]\<rparr>"
    by simp
  with first show ?thesis by (simp add: run_Cons)
qed

end
